theory Spec2Isabelle
  imports Main "HOL-Library.AList"
begin

section \<open>Data model of datacube/model/lineage.py\<close>

text \<open>
  Dataset ids (Python \<open>UUID\<close>) are opaque and only compared for equality: they are
  the type parameter \<open>'id\<close>. Classifiers are strings, a home is an optional string.

  A Python \<open>dict\<close> is an association list in insertion order: \<open>map_of\<close> looks a key
  up, \<open>AList.update k v\<close> is \<open>d[k] = v\<close> (the value is replaced in place when the
  key is present, the pair is appended otherwise), and iterating \<open>d.items()\<close> walks the
  list from the left. A Python \<open>set\<close> is a HOL set.
\<close>

datatype LineageDirection = SOURCES | DERIVED

fun opposite :: "LineageDirection \<Rightarrow> LineageDirection" where
  "opposite d = (if d = SOURCES then DERIVED else SOURCES)"

datatype 'id LineageTree =
  LineageTree
    (direction: LineageDirection)
    (dataset_id: 'id)
    (children: "(string \<times> 'id LineageTree list) list option")
    (home: "string option")

text \<open>
  Every \<open>raise InconsistentLineageException(...)\<close> of the source is one value of
  \<open>reason\<close>, named after the place that raises:
  \<^item> \<open>CyclicTree\<close>: "LineageTrees must be acyclic" in \<open>child_datasets\<close>;
  \<^item> \<open>InconsistentHome\<close>: "Tree contains inconsistent homes for dataset ..." in \<open>merge_new_home\<close>;
  \<^item> \<open>InconsistentClassifier\<close>: "Dataset ... depends on ... with inconsistent classifiers." in
    \<open>merge_new_lineage_relation\<close>;
  \<^item> \<open>DuplicateSubtree\<close>: "Self-reference or duplicate subtrees detected: risk of infinite
    recursion." in \<open>_merge_new_node\<close>;
  \<^item> \<open>MixedDirection\<close>: "Tree contains both derived and source nodes" in \<open>merge_tree\<close>;
  \<^item> \<open>CyclicGraph\<close>: "LineageTrees must be acyclic: ..." in \<open>extract_tree\<close>.

  \<open>TypeError\<close> is the exception the Python interpreter itself raises in \<open>relations_diff\<close>.
  An operation that raises returns \<open>Inl\<close> of the error; the collection it was mutating is
  then lost (the source leaves it partly updated).
\<close>

datatype reason =
  CyclicTree | InconsistentHome | InconsistentClassifier | DuplicateSubtree | MixedDirection | CyclicGraph

datatype error = InconsistentLineageException reason | TypeError

record 'id LineageRelation =
  classifier :: string
  source_id :: 'id
  derived_id :: 'id

text \<open>
  The attributes of a \<open>LineageRelations\<close> object, in the order \<open>__init__\<close> creates them
  (\<open>homes\<close>, \<open>relations_idx\<close> and \<open>trees_idx\<close> are \<open>_homes\<close>, \<open>_relations_idx\<close> and
  \<open>_trees_idx\<close> in the source).
\<close>

record 'id LineageRelations =
  homes :: "('id \<times> string option) list"
  relations_idx :: "(('id \<times> 'id) \<times> string) list"
  trees_idx :: "(('id \<times> 'id) \<times> 'id LineageTree) list"
  relations :: "'id LineageRelation list"
  by_source :: "('id \<times> ('id \<times> string) list) list"
  by_derived :: "('id \<times> ('id \<times> string) list) list"
  dataset_ids :: "'id set"

definition empty_relations :: "'id LineageRelations" where
  "empty_relations =
     \<lparr>homes = [], relations_idx = [], trees_idx = [], relations = [],
      by_source = [], by_derived = [], dataset_ids = {}\<rparr>"

text \<open>Python truthiness: \<open>None\<close>, the empty dict and the empty string are false.\<close>

definition truthy_children :: "(string \<times> 'id LineageTree list) list option \<Rightarrow> bool" where
  "truthy_children ch = (case ch of None \<Rightarrow> False | Some m \<Rightarrow> m \<noteq> [])"

definition truthy_home :: "string option \<Rightarrow> bool" where
  "truthy_home h = (case h of None \<Rightarrow> False | Some s \<Rightarrow> s \<noteq> [])"

text \<open>\<open>d.get(k, {})\<close> on a dict of dicts.\<close>

definition get_or_empty :: "('k \<times> ('a \<times> 'b) list) list \<Rightarrow> 'k \<Rightarrow> ('a \<times> 'b) list" where
  "get_or_empty d k = (case map_of d k of None \<Rightarrow> [] | Some m \<Rightarrow> m)"

text \<open>\<open>if k not in d: d[k] = {}\<close>\<close>

definition ensure_key :: "'k \<Rightarrow> ('k \<times> ('a \<times> 'b) list) list \<Rightarrow> ('k \<times> ('a \<times> 'b) list) list" where
  "ensure_key k d = (if map_of d k = None then AList.update k [] d else d)"

text \<open>\<open>d[k1][k2] = v\<close>, for \<open>k1\<close> a key of \<open>d\<close> (which \<open>ensure_key\<close> has made sure of).\<close>

definition set_nested ::
  "'k \<Rightarrow> 'a \<Rightarrow> 'b \<Rightarrow> ('k \<times> ('a \<times> 'b) list) list \<Rightarrow> ('k \<times> ('a \<times> 'b) list) list" where
  "set_nested k1 k2 v d = AList.update k1 (AList.update k2 v (get_or_empty d k1)) d"

section \<open>LineageTree.child_datasets\<close>

fun child_datasets :: "'id LineageTree \<Rightarrow> error + 'id set"
  and child_datasets_items ::
    "'id \<Rightarrow> (string \<times> 'id LineageTree list) list \<Rightarrow> 'id set \<Rightarrow> error + 'id set"
  and child_datasets_children ::
    "'id \<Rightarrow> 'id LineageTree list \<Rightarrow> 'id set \<Rightarrow> error + 'id set"
where
  "child_datasets (LineageTree d i ch h) =
     (case ch of
        None \<Rightarrow> Inr {}
      | Some items \<Rightarrow> child_datasets_items i items {})"
| "child_datasets_items i [] child_dsids = Inr child_dsids"
| "child_datasets_items i ((c, chn) # rest) child_dsids =
     (case child_datasets_children i chn child_dsids of
        Inl e \<Rightarrow> Inl e
      | Inr child_dsids' \<Rightarrow> child_datasets_items i rest child_dsids')"
| "child_datasets_children i [] child_dsids = Inr child_dsids"
| "child_datasets_children i (child # rest) child_dsids =
     (case child_datasets child of
        Inl e \<Rightarrow> Inl e
      | Inr sub \<Rightarrow>
          (let subchildren = insert (dataset_id child) sub in
           if i \<in> subchildren then Inl (InconsistentLineageException CyclicTree)
           else child_datasets_children i rest (child_dsids \<union> subchildren)))"

section \<open>LineageRelations\<close>

subsection \<open>merge_new_home\<close>

definition merge_new_home ::
  "'id LineageRelations \<Rightarrow> 'id \<Rightarrow> string option \<Rightarrow> error + 'id LineageRelations" where
  "merge_new_home self dsid hm =
     (case map_of (homes self) dsid of
        Some stored \<Rightarrow>
          if truthy_home stored \<and> stored \<noteq> hm
          then Inl (InconsistentLineageException InconsistentHome)
          else Inr self
      | None \<Rightarrow> Inr (self\<lparr>homes := AList.update dsid hm (homes self)\<rparr>))"

subsection \<open>extract_tree\<close>

text \<open>
  The direction selects the adjacency index that \<open>extract_tree\<close> walks:
  \<open>by_source\<close> for \<open>SOURCES\<close>, \<open>by_derived\<close> otherwise.
\<close>

definition adjacency ::
  "'id LineageRelations \<Rightarrow> LineageDirection \<Rightarrow> ('id \<times> ('id \<times> string) list) list" where
  "adjacency self dir = (if dir = SOURCES then by_source self else by_derived self)"

text \<open>
  The body of the loop over \<open>subtrees.items()\<close>: append \<open>subtree\<close> to the list under
  \<open>classifier\<close>, or start that list.
\<close>

definition add_child ::
  "string \<Rightarrow> 'id LineageTree \<Rightarrow> (string \<times> 'id LineageTree list) list
   \<Rightarrow> (string \<times> 'id LineageTree list) list" where
  "add_child c subtree chn =
     (case map_of chn c of
        Some ts \<Rightarrow> AList.update c (ts @ [subtree]) chn
      | None \<Rightarrow> AList.update c [subtree] chn)"

definition so_far_set :: "'id set option \<Rightarrow> 'id set" where
  "so_far_set so_far = (case so_far of None \<Rightarrow> {} | Some s \<Rightarrow> s)"

function extract_tree ::
    "'id LineageRelations \<Rightarrow> 'id \<Rightarrow> LineageDirection \<Rightarrow> 'id set option \<Rightarrow> error + 'id LineageTree"
  and extract_subtrees ::
    "'id LineageRelations \<Rightarrow> LineageDirection \<Rightarrow> 'id set \<Rightarrow> ('id \<times> string) list
     \<Rightarrow> (string \<times> 'id LineageTree list) list \<Rightarrow> error + (string \<times> 'id LineageTree list) list"
where
  "extract_tree self root dir so_far =
     (if root \<in> so_far_set so_far then Inl (InconsistentLineageException CyclicGraph)
      else
        (case extract_subtrees self dir (insert root (so_far_set so_far))
                (get_or_empty (adjacency self dir) root) [] of
           Inl e \<Rightarrow> Inl e
         | Inr chn \<Rightarrow> Inr (LineageTree dir root (Some chn) (case map_of (homes self) root of None \<Rightarrow> None | Some h \<Rightarrow> h))))"
| "extract_subtrees self dir so_far [] chn = Inr chn"
| "extract_subtrees self dir so_far ((dsid, c) # rest) chn =
     (case extract_tree self dsid dir (Some so_far) of
        Inl e \<Rightarrow> Inl e
      | Inr subtree \<Rightarrow> extract_subtrees self dir so_far rest (add_child c subtree chn))"
  by pat_completeness auto

text \<open>
  Termination: each recursive call of \<open>extract_tree\<close> that has subtrees to visit adds a key
  of the adjacency index to \<open>so_far\<close>, and a root already in \<open>so_far\<close> raises.
\<close>

termination extract_tree
proof (relation "inv_image (less_than <*lex*> less_than)
    (\<lambda>x. case x of
       Inl (self, root, dir, so_far) \<Rightarrow>
         (card (fst ` set (adjacency self dir) - so_far_set so_far), 1)
     | Inr (self, dir, so_far, todo, chn) \<Rightarrow>
         (card (fst ` set (adjacency self dir) - so_far), 2 * length todo))", goal_cases)
  case 1
  then show ?case by (intro wf_inv_image wf_lex_prod wf_less_than)
next
  case (2 self root dir so_far)
  show ?case
  proof (cases "root \<in> fst ` set (adjacency self dir)")
    case True
    have "card (fst ` set (adjacency self dir) - insert root (so_far_set so_far))
        < card (fst ` set (adjacency self dir) - so_far_set so_far)"
      by (rule psubset_card_mono) (use True 2 in auto)
    then show ?thesis by simp
  next
    case False
    then have "get_or_empty (adjacency self dir) root = []"
      by (simp add: get_or_empty_def map_of_eq_None_iff[THEN iffD2])
    moreover have "fst ` set (adjacency self dir) - insert root (so_far_set so_far)
        = fst ` set (adjacency self dir) - so_far_set so_far"
      using False by auto
    ultimately show ?thesis by simp
  qed
next
  case 3
  then show ?case by (simp add: so_far_set_def)
next
  case 4
  then show ?case by simp
qed

subsection \<open>merge_new_lineage_relation and its wrapper\<close>

text \<open>
  The index key is \<open>(rel.source_id, rel.derived_id)\<close>. A pair already indexed only has its
  classifier compared. A new pair is written to every index first; the two extractions
  that look for a cycle run only when one of the two ids is already in \<open>dataset_ids\<close>.
\<close>

definition insert_relation :: "'id LineageRelations \<Rightarrow> 'id LineageRelation \<Rightarrow> 'id LineageRelations" where
  "insert_relation self rel =
     self\<lparr>relations_idx := AList.update (source_id rel, derived_id rel) (classifier rel) (relations_idx self),
          relations := relations self @ [rel],
          by_source := set_nested (source_id rel) (derived_id rel) (classifier rel)
                         (ensure_key (source_id rel) (by_source self)),
          by_derived := set_nested (derived_id rel) (source_id rel) (classifier rel)
                         (ensure_key (derived_id rel) (by_derived self))\<rparr>"

definition merge_new_lineage_relation ::
  "'id LineageRelations \<Rightarrow> 'id LineageRelation \<Rightarrow> error + 'id LineageRelations" where
  "merge_new_lineage_relation self rel =
     (let ids = (source_id rel, derived_id rel) in
      case map_of (relations_idx self) ids of
        Some c \<Rightarrow>
          if c \<noteq> classifier rel
          then Inl (InconsistentLineageException InconsistentClassifier)
          else Inr self
      | None \<Rightarrow>
          (let self' = insert_relation self rel;
               new_ids = {source_id rel, derived_id rel} in
           if new_ids \<inter> dataset_ids self' \<noteq> {} then
             (case extract_tree self' (derived_id rel) SOURCES None of
                Inl e \<Rightarrow> Inl e
              | Inr _ \<Rightarrow>
                  (case extract_tree self' (source_id rel) DERIVED None of
                     Inl e \<Rightarrow> Inl e
                   | Inr _ \<Rightarrow> Inr (self'\<lparr>dataset_ids := dataset_ids self' \<union> new_ids\<rparr>)))
           else Inr (self'\<lparr>dataset_ids := dataset_ids self' \<union> new_ids\<rparr>)))"

text \<open>\<open>_merge_new_relation\<close>: \<open>source_id = ids[0]\<close>, \<open>derived_id = ids[1]\<close>.\<close>

definition merge_new_relation ::
  "'id LineageRelations \<Rightarrow> 'id \<times> 'id \<Rightarrow> string \<Rightarrow> error + 'id LineageRelations" where
  "merge_new_relation self ids c =
     merge_new_lineage_relation self \<lparr>classifier = c, source_id = fst ids, derived_id = snd ids\<rparr>"

subsection \<open>_merge_new_node\<close>

definition merge_new_node ::
  "'id LineageRelations \<Rightarrow> 'id \<times> 'id \<Rightarrow> 'id LineageTree \<Rightarrow> error + 'id LineageRelations" where
  "merge_new_node self ids node =
     (let got_grandchildren = truthy_children (children node) in
      if got_grandchildren then
        (if map_of (trees_idx self) ids \<noteq> None
         then Inl (InconsistentLineageException DuplicateSubtree)
         else Inr (self\<lparr>trees_idx := AList.update ids node (trees_idx self)\<rparr>))
      else Inr self)"

subsection \<open>merge\<close>

text \<open>The three loops of \<open>merge\<close>, over the items of the pool's three dicts.\<close>

fun merge_homes ::
  "'id LineageRelations \<Rightarrow> ('id \<times> string option) list \<Rightarrow> error + 'id LineageRelations" where
  "merge_homes self [] = Inr self"
| "merge_homes self ((dsid, hm) # rest) =
     (case merge_new_home self dsid hm of
        Inl e \<Rightarrow> Inl e
      | Inr self' \<Rightarrow> merge_homes self' rest)"

fun merge_relations ::
  "'id LineageRelations \<Rightarrow> (('id \<times> 'id) \<times> string) list \<Rightarrow> error + 'id LineageRelations" where
  "merge_relations self [] = Inr self"
| "merge_relations self ((ids, c) # rest) =
     (case merge_new_relation self ids c of
        Inl e \<Rightarrow> Inl e
      | Inr self' \<Rightarrow> merge_relations self' rest)"

fun merge_nodes ::
  "'id LineageRelations \<Rightarrow> (('id \<times> 'id) \<times> 'id LineageTree) list \<Rightarrow> error + 'id LineageRelations" where
  "merge_nodes self [] = Inr self"
| "merge_nodes self ((ids, node) # rest) =
     (case merge_new_node self ids node of
        Inl e \<Rightarrow> Inl e
      | Inr self' \<Rightarrow> merge_nodes self' rest)"

definition merge :: "'id LineageRelations \<Rightarrow> 'id LineageRelations \<Rightarrow> error + 'id LineageRelations" where
  "merge self pool =
     (case merge_homes self (homes pool) of
        Inl e \<Rightarrow> Inl e
      | Inr s1 \<Rightarrow>
          (case merge_relations s1 (relations_idx pool) of
             Inl e \<Rightarrow> Inl e
           | Inr s2 \<Rightarrow> merge_nodes s2 (trees_idx pool)))"

subsection \<open>merge_tree\<close>

text \<open>
  "Determine recursion behaviour": the pair \<open>(recurse, next_max_depth)\<close>. A
  \<open>LineageTree\<close> object is always true, so \<open>not parent_node\<close> holds exactly for \<open>None\<close>.
\<close>

definition recursion_behaviour :: "'id LineageTree option \<Rightarrow> int \<Rightarrow> bool \<times> int" where
  "recursion_behaviour parent_node max_depth =
     (if parent_node = None then (True, max_depth)
      else if max_depth = 0 then (True, 0)
      else if max_depth = 1 then (False, max_depth - 1)
      else (True, max_depth - 1))"

text \<open>The canonical pair of the edge between a node and one of its children.\<close>

definition edge_ids :: "'id LineageTree \<Rightarrow> 'id LineageTree \<Rightarrow> 'id \<times> 'id" where
  "edge_ids tree child =
     (if direction tree = SOURCES then (dataset_id tree, dataset_id child)
      else (dataset_id child, dataset_id tree))"

text \<open>
  The part of \<open>merge_tree\<close> before its loops: the tree's own acyclicity check, the home of
  its root, and for a node without children the extraction in the opposite direction.
\<close>

definition merge_tree_node :: "'id LineageRelations \<Rightarrow> 'id LineageTree \<Rightarrow> error + 'id LineageRelations" where
  "merge_tree_node self tree =
     (case child_datasets tree of
        Inl e \<Rightarrow> Inl e
      | Inr _ \<Rightarrow>
          (case merge_new_home self (dataset_id tree) (home tree) of
             Inl e \<Rightarrow> Inl e
           | Inr self' \<Rightarrow>
               if \<not> truthy_children (children tree) then
                 (case extract_tree self' (dataset_id tree) (opposite (direction tree)) None of
                    Inl e \<Rightarrow> Inl e
                  | Inr _ \<Rightarrow> Inr self')
               else Inr self'))"

text \<open>
  The body of the inner loop up to the recursive call: direction check, the edge, the
  registration of the child's subtree.
\<close>

definition merge_tree_edge ::
  "'id LineageRelations \<Rightarrow> 'id LineageTree \<Rightarrow> string \<Rightarrow> 'id LineageTree \<Rightarrow> error + 'id LineageRelations" where
  "merge_tree_edge self tree c child =
     (if direction child \<noteq> direction tree
      then Inl (InconsistentLineageException MixedDirection)
      else
        (let ids = edge_ids tree child in
         case merge_new_relation self ids c of
           Inl e \<Rightarrow> Inl e
         | Inr self' \<Rightarrow> merge_new_node self' ids child))"

fun merge_tree ::
    "'id LineageRelations \<Rightarrow> 'id LineageTree \<Rightarrow> 'id LineageTree option \<Rightarrow> int
     \<Rightarrow> error + 'id LineageRelations"
  and merge_tree_items ::
    "'id LineageRelations \<Rightarrow> 'id LineageTree \<Rightarrow> bool \<Rightarrow> int
     \<Rightarrow> (string \<times> 'id LineageTree list) list \<Rightarrow> error + 'id LineageRelations"
  and merge_tree_children ::
    "'id LineageRelations \<Rightarrow> 'id LineageTree \<Rightarrow> bool \<Rightarrow> int \<Rightarrow> string
     \<Rightarrow> 'id LineageTree list \<Rightarrow> error + 'id LineageRelations"
where
  "merge_tree self (LineageTree d i ch h) parent_node max_depth =
     (case merge_tree_node self (LineageTree d i ch h) of
        Inl e \<Rightarrow> Inl e
      | Inr self' \<Rightarrow>
          (case ch of
             None \<Rightarrow> Inr self'
           | Some items \<Rightarrow>
               merge_tree_items self' (LineageTree d i ch h)
                 (fst (recursion_behaviour parent_node max_depth))
                 (snd (recursion_behaviour parent_node max_depth)) items))"
| "merge_tree_items self tree recurse next_max_depth [] = Inr self"
| "merge_tree_items self tree recurse next_max_depth ((c, chn) # rest) =
     (case merge_tree_children self tree recurse next_max_depth c chn of
        Inl e \<Rightarrow> Inl e
      | Inr self' \<Rightarrow> merge_tree_items self' tree recurse next_max_depth rest)"
| "merge_tree_children self tree recurse next_max_depth c [] = Inr self"
| "merge_tree_children self tree recurse next_max_depth c (child # rest) =
     (case merge_tree_edge self tree c child of
        Inl e \<Rightarrow> Inl e
      | Inr self' \<Rightarrow>
          if recurse then
            (case merge_tree self' child (Some tree) next_max_depth of
               Inl e \<Rightarrow> Inl e
             | Inr self'' \<Rightarrow> merge_tree_children self'' tree recurse next_max_depth c rest)
          else merge_tree_children self' tree recurse next_max_depth c rest)"

subsection \<open>The constructor\<close>

definition LineageRelations_init ::
  "'id LineageTree option \<Rightarrow> int \<Rightarrow> 'id LineageRelations option \<Rightarrow> error + 'id LineageRelations" where
  "LineageRelations_init tree max_depth clone =
     (case (case clone of None \<Rightarrow> Inr empty_relations | Some pool \<Rightarrow> merge empty_relations pool) of
        Inl e \<Rightarrow> Inl e
      | Inr self \<Rightarrow>
          (case tree of None \<Rightarrow> Inr self | Some t \<Rightarrow> merge_tree self t None max_depth))"

subsection \<open>relations_diff\<close>

text \<open>
  \<open>if not existing_relations\<close>: the class defines neither \<open>__bool__\<close> nor \<open>__len__\<close>, so
  every \<open>LineageRelations\<close> object is true, also an empty one, and the early return is
  taken for \<open>None\<close> only.

  \<open>for id_, home in self._homes\<close> iterates over the keys of the dict. A key is a UUID,
  which cannot be unpacked into two names: the first iteration raises \<open>TypeError\<close>.
\<close>

definition diff_homes_loop :: "('id \<times> string option) list \<Rightarrow> error + unit" where
  "diff_homes_loop hs = (case hs of [] \<Rightarrow> Inr () | kv # rest \<Rightarrow> Inl TypeError)"

text \<open>
  \<open>for ids, classifier in self._relations_idx\<close> iterates over the keys too. A key is a
  pair of UUIDs, so the unpacking succeeds: \<open>ids\<close> is the first UUID and \<open>classifier\<close> the
  second. No key of \<open>existing_relations._relations_idx\<close> (a pair) equals a UUID, so
  \<open>ids not in existing_relations._relations_idx\<close> holds, and
  \<open>relations_to_add[ids] = classifier\<close> indexes the list \<open>relations_to_add\<close> with a UUID:
  the first iteration raises \<open>TypeError\<close>.
\<close>

definition diff_relations_loop :: "(('id \<times> 'id) \<times> string) list \<Rightarrow> error + unit" where
  "diff_relations_loop rs = (case rs of [] \<Rightarrow> Inr () | kv # rest \<Rightarrow> Inl TypeError)"

text \<open>
  The result is the tuple (relations to add, relations to update, homes to add, homes to
  update). Both branches run the same two loops over \<open>self\<close>; the strict one first builds
  \<open>LineageRelations(clone=self)\<close> and merges the existing collection into it.
\<close>

definition relations_diff ::
  "'id LineageRelations \<Rightarrow> 'id LineageRelations option \<Rightarrow> bool
   \<Rightarrow> error + ('id LineageRelation list \<times> (('id \<times> 'id) \<times> string) list
                \<times> ('id \<times> string option) list \<times> ('id \<times> string option) list)" where
  "relations_diff self existing_relations allow_updates =
     (case existing_relations of
        None \<Rightarrow> Inr (relations self, [], homes self, [])
      | Some existing \<Rightarrow>
          if \<not> allow_updates then
            (case LineageRelations_init None 0 (Some self) of
               Inl e \<Rightarrow> Inl e
             | Inr merged \<Rightarrow>
                 (case merge merged existing of
                    Inl e \<Rightarrow> Inl e
                  | Inr _ \<Rightarrow>
                      (case diff_homes_loop (homes self) of
                         Inl e \<Rightarrow> Inl e
                       | Inr _ \<Rightarrow>
                           (case diff_relations_loop (relations_idx self) of
                              Inl e \<Rightarrow> Inl e
                            | Inr _ \<Rightarrow> Inr ([], [], [], [])))))
          else
            (case diff_homes_loop (homes self) of
               Inl e \<Rightarrow> Inl e
             | Inr _ \<Rightarrow>
                 (case diff_relations_loop (relations_idx self) of
                    Inl e \<Rightarrow> Inl e
                  | Inr _ \<Rightarrow> Inr ([], [], [], []))))"

section \<open>Notions used in the statements\<close>

text \<open>The edge set of a collection: one pair (source, derived) for each recorded relation.\<close>

definition edge_set :: "'id LineageRelations \<Rightarrow> ('id \<times> 'id) set" where
  "edge_set self = (\<lambda>r. (source_id r, derived_id r)) ` set (relations self)"

text \<open>
  \<open>relations\<close> and \<open>_relations_idx\<close> are written together, so the index lists the relations
  in order, one per pair of ids.
\<close>

definition index_of :: "'id LineageRelation \<Rightarrow> ('id \<times> 'id) \<times> string" where
  "index_of r = ((source_id r, derived_id r), classifier r)"

definition wf_index :: "'id LineageRelations \<Rightarrow> bool" where
  "wf_index self \<longleftrightarrow>
     relations_idx self = map index_of (relations self)
     \<and> distinct (map (\<lambda>r. (source_id r, derived_id r)) (relations self))"

text \<open>The collection that holds the single relation \<open>(c, a, b)\<close> and no home.\<close>

definition holding :: "string \<Rightarrow> 'id \<Rightarrow> 'id \<Rightarrow> 'id LineageRelations" where
  "holding c a b =
     \<lparr>homes = [], relations_idx = [((a, b), c)], trees_idx = [],
      relations = [\<lparr>classifier = c, source_id = a, derived_id = b\<rparr>],
      by_source = [(a, [(b, c)])], by_derived = [(b, [(a, c)])], dataset_ids = {a, b}\<rparr>"

text \<open>A leaf (\<open>children = {}\<close>, no home) and the tree of the U1/U2 scenario.\<close>

definition leaf :: "LineageDirection \<Rightarrow> 'id \<Rightarrow> 'id LineageTree" where
  "leaf d i = LineageTree d i (Some []) None"

definition scenario_tree :: "'id \<Rightarrow> 'id \<Rightarrow> 'id LineageTree" where
  "scenario_tree u1 u2 = LineageTree SOURCES u1 (Some [(''nbar'', [leaf SOURCES u2])]) None"

text \<open>
  A chain 1, 2, 3 (the child 2 carries a child of its own), and the collection that
  merging it into the empty collection gives.
\<close>

definition chain_tree :: "nat LineageTree" where
  "chain_tree =
     LineageTree SOURCES 1
       (Some [(''x'', [LineageTree SOURCES 2 (Some [(''y'', [leaf SOURCES 3])]) None])]) None"

definition chain_pool :: "nat LineageRelations" where
  "chain_pool =
     \<lparr>homes = [(1, None), (2, None), (3, None)],
      relations_idx = [((1, 2), ''x''), ((2, 3), ''y'')],
      trees_idx = [((1, 2), LineageTree SOURCES 2 (Some [(''y'', [leaf SOURCES 3])]) None)],
      relations = [\<lparr>classifier = ''x'', source_id = 1, derived_id = 2\<rparr>,
                   \<lparr>classifier = ''y'', source_id = 2, derived_id = 3\<rparr>],
      by_source = [(1, [(2, ''x'')]), (2, [(3, ''y'')])],
      by_derived = [(2, [(1, ''x'')]), (3, [(2, ''y'')])],
      dataset_ids = {1, 2, 3}\<rparr>"

text \<open>A chain 1, 2, 3, 4 in which every node but the last carries a home.\<close>

definition deep_tree :: "nat LineageTree" where
  "deep_tree =
     LineageTree SOURCES 1
       (Some [(''x'', [LineageTree SOURCES 2
          (Some [(''y'', [LineageTree SOURCES 3
             (Some [(''z'', [leaf SOURCES 4])]) (Some ''h3'')])]) (Some ''h2'')])]) (Some ''h1'')"

text \<open>
  A diamond with a tail: 4 is reached from 1 directly and through 2, and 4, 5, 6 is a
  chain below it. \<open>diamond_tree\<close> is its extraction from 1.
\<close>

definition diamond_edges :: "((nat \<times> nat) \<times> string) list" where
  "diamond_edges = [((1, 4), ''x''), ((1, 2), ''x''), ((2, 4), ''y''), ((4, 5), ''z''), ((5, 6), ''w'')]"

definition diamond_pool :: "nat LineageRelations" where
  "diamond_pool =
     \<lparr>homes = [], relations_idx = diamond_edges, trees_idx = [],
      relations = [\<lparr>classifier = ''x'', source_id = 1, derived_id = 4\<rparr>,
                   \<lparr>classifier = ''x'', source_id = 1, derived_id = 2\<rparr>,
                   \<lparr>classifier = ''y'', source_id = 2, derived_id = 4\<rparr>,
                   \<lparr>classifier = ''z'', source_id = 4, derived_id = 5\<rparr>,
                   \<lparr>classifier = ''w'', source_id = 5, derived_id = 6\<rparr>],
      by_source = [(1, [(4, ''x''), (2, ''x'')]), (2, [(4, ''y'')]), (4, [(5, ''z'')]), (5, [(6, ''w'')])],
      by_derived = [(4, [(1, ''x''), (2, ''y'')]), (2, [(1, ''x'')]), (5, [(4, ''z'')]), (6, [(5, ''w'')])],
      dataset_ids = {1, 2, 4, 5, 6}\<rparr>"

definition diamond_tail :: "nat LineageTree" where
  "diamond_tail =
     LineageTree SOURCES 4
       (Some [(''z'', [LineageTree SOURCES 5 (Some [(''w'', [leaf SOURCES 6])]) None])]) None"

definition diamond_tree :: "nat LineageTree" where
  "diamond_tree =
     LineageTree SOURCES 1
       (Some [(''x'', [diamond_tail, LineageTree SOURCES 2 (Some [(''y'', [diamond_tail])]) None])])
       None"

text \<open>
  The edges \<open>extract_tree\<close> follows in a direction, and the paths along them: \<open>path_from E x p\<close>
  says that \<open>x # p\<close> is a sequence of ids in which each is linked to the next.
\<close>

definition adj_edges :: "'id LineageRelations \<Rightarrow> LineageDirection \<Rightarrow> ('id \<times> 'id) set" where
  "adj_edges self dir = {(u, v). v \<in> fst ` set (get_or_empty (adjacency self dir) u)}"

fun path_from :: "('id \<times> 'id) set \<Rightarrow> 'id \<Rightarrow> 'id list \<Rightarrow> bool" where
  "path_from E x [] = True"
| "path_from E x (y # ys) = ((x, y) \<in> E \<and> path_from E y ys)"

text \<open>Every node of the tree has a children mapping (\<open>children\<close> is never \<open>None\<close>).\<close>

fun expanded :: "'id LineageTree \<Rightarrow> bool" where
  "expanded (LineageTree d i ch h) =
     (case ch of None \<Rightarrow> False | Some items \<Rightarrow> (\<forall>(c, ts) \<in> set items. \<forall>t \<in> set ts. expanded t))"

definition all_expanded :: "(string \<times> 'id LineageTree list) list \<Rightarrow> bool" where
  "all_expanded items \<longleftrightarrow> (\<forall>(c, ts) \<in> set items. \<forall>t \<in> set ts. expanded t)"

text \<open>
  A root is blocked when a path from it repeats an id or meets the set \<open>B\<close> (the ids on the
  way down to it).
\<close>

definition blocked :: "('id \<times> 'id) set \<Rightarrow> 'id set \<Rightarrow> 'id \<Rightarrow> bool" where
  "blocked E B x \<longleftrightarrow> (\<exists>p. path_from E x p \<and> (\<not> distinct (x # p) \<or> set (x # p) \<inter> B \<noteq> {}))"

text \<open>The child trees of a node, and the edges from a node to them with their classifiers.\<close>

definition subtrees :: "'id LineageTree \<Rightarrow> 'id LineageTree list" where
  "subtrees t = (case children t of None \<Rightarrow> [] | Some items \<Rightarrow> concat (map snd items))"

definition item_edges ::
  "'id LineageTree \<Rightarrow> (string \<times> 'id LineageTree list) list \<Rightarrow> (('id \<times> 'id) \<times> string) list" where
  "item_edges t items = concat (map (\<lambda>(c, ts). map (\<lambda>child. (edge_ids t child, c)) ts) items)"

definition node_edges :: "'id LineageTree \<Rightarrow> (('id \<times> 'id) \<times> string) list" where
  "node_edges t = (case children t of None \<Rightarrow> [] | Some items \<Rightarrow> item_edges t items)"

text \<open>All the nodes of a tree, and those at depth at most \<open>n\<close> (the root is at depth 0).\<close>

fun nodes :: "'id LineageTree \<Rightarrow> 'id LineageTree list" where
  "nodes (LineageTree d i ch h) =
     LineageTree d i ch h #
       (case ch of None \<Rightarrow> [] | Some items \<Rightarrow> concat (map (\<lambda>(c, ts). concat (map nodes ts)) items))"

primrec nodes_upto :: "nat \<Rightarrow> 'id LineageTree \<Rightarrow> 'id LineageTree list" where
  "nodes_upto 0 t = [t]"
| "nodes_upto (Suc n) t = t # concat (map (nodes_upto n) (subtrees t))"

text \<open>
  The nodes a call of \<open>merge_tree\<close> reaches: every node when \<open>max_depth\<close> is not positive,
  else those within \<open>max_depth\<close> levels of the root for the outer call and within
  \<open>max_depth - 1\<close> levels for a recursive one.
\<close>

definition visited :: "nat option \<Rightarrow> 'id LineageTree \<Rightarrow> 'id LineageTree set" where
  "visited lim t = (case lim of None \<Rightarrow> set (nodes t) | Some n \<Rightarrow> set (nodes_upto n t))"

definition below :: "nat option \<Rightarrow> 'id LineageTree list \<Rightarrow> 'id LineageTree set" where
  "below lim ts = (\<Union>t \<in> set ts. visited lim t)"

definition edges_of :: "'id LineageTree set \<Rightarrow> (('id \<times> 'id) \<times> string) set" where
  "edges_of N = (\<Union>n \<in> N. set (node_edges n))"

definition depth_limit :: "'id LineageTree option \<Rightarrow> int \<Rightarrow> nat option" where
  "depth_limit parent_node max_depth =
     (if max_depth \<le> 0 then None
      else if parent_node = None then Some (nat max_depth)
      else Some (nat max_depth - 1))"

text \<open>
  What a successful merge does to the homes (the ids of the nodes \<open>N\<close> become keys, no entry
  changes, and a new entry is the home of a node with that id) and to the relation index
  (the edges \<open>E\<close> are added).
\<close>

definition homes_grow :: "'id LineageRelations \<Rightarrow> 'id LineageRelations \<Rightarrow> 'id LineageTree set \<Rightarrow> bool" where
  "homes_grow self s' N \<longleftrightarrow>
     fst ` set (homes s') = fst ` set (homes self) \<union> dataset_id ` N
     \<and> (\<forall>k v. map_of (homes self) k = Some v \<longrightarrow> map_of (homes s') k = Some v)
     \<and> (\<forall>k. map_of (homes self) k = None \<longrightarrow> k \<in> dataset_id ` N \<longrightarrow>
            (\<exists>n \<in> N. dataset_id n = k \<and> map_of (homes s') k = Some (home n)))"

definition merged ::
  "'id LineageRelations \<Rightarrow> 'id LineageRelations \<Rightarrow> 'id LineageTree set
   \<Rightarrow> (('id \<times> 'id) \<times> string) set \<Rightarrow> bool" where
  "merged self s' N E \<longleftrightarrow>
     homes_grow self s' N
     \<and> set (relations_idx s') = set (relations_idx self) \<union> E
     \<and> (wf_index self \<longrightarrow> wf_index s')"

text \<open>
  No stored home and no indexed relation is lost or changed from \<open>a\<close> to \<open>b\<close>.
\<close>

definition kept :: "'id LineageRelations \<Rightarrow> 'id LineageRelations \<Rightarrow> bool" where
  "kept a b \<longleftrightarrow>
     (\<forall>k v. map_of (homes a) k = Some v \<longrightarrow> map_of (homes b) k = Some v)
     \<and> (\<forall>k v. map_of (relations_idx a) k = Some v \<longrightarrow> map_of (relations_idx b) k = Some v)"

text \<open>Some cycle of \<open>E\<close> can be reached from \<open>x\<close>.\<close>

definition cyclic_from :: "('id \<times> 'id) set \<Rightarrow> 'id \<Rightarrow> bool" where
  "cyclic_from E x \<longleftrightarrow> (\<exists>y. (x, y) \<in> E\<^sup>* \<and> (y, y) \<in> E\<^sup>+)"

text \<open>\<open>not tree.children\<close>: the node has no children mapping, or an empty one.\<close>

definition leafy :: "'id LineageTree \<Rightarrow> bool" where
  "leafy t \<longleftrightarrow> \<not> truthy_children (children t)"

text \<open>\<open>self._homes.get(root)\<close>: the stored home of an id, null when it has none.\<close>

definition home_of :: "'id LineageRelations \<Rightarrow> 'id \<Rightarrow> string option" where
  "home_of R k = (case map_of (homes R) k of None \<Rightarrow> None | Some h \<Rightarrow> h)"

text \<open>
  The pair (source, derived) of the entry \<open>v\<close> found under \<open>u\<close> in the adjacency index of a
  direction: \<open>by_source[u][v]\<close> is the relation from \<open>u\<close> to \<open>v\<close>, \<open>by_derived[u][v]\<close> the one
  from \<open>v\<close> to \<open>u\<close>.
\<close>

definition orient :: "LineageDirection \<Rightarrow> 'id \<times> 'id \<Rightarrow> 'id \<times> 'id" where
  "orient dir e = (if dir = SOURCES then e else (snd e, fst e))"

text \<open>
  The ids reachable from a root along the edges of a direction, and the edges (with their
  classifiers) that start at a reachable id.
\<close>

definition reach_ids :: "'id LineageRelations \<Rightarrow> 'id \<Rightarrow> LineageDirection \<Rightarrow> 'id set" where
  "reach_ids R root dir = {y. (root, y) \<in> (adj_edges R dir)\<^sup>*}"

definition reach_edges ::
  "'id LineageRelations \<Rightarrow> 'id \<Rightarrow> LineageDirection \<Rightarrow> (('id \<times> 'id) \<times> string) set" where
  "reach_edges R root dir =
     {(orient dir (u, v), c) | u v c.
        u \<in> reach_ids R root dir \<and> (v, c) \<in> set (get_or_empty (adjacency R dir) u)}"

text \<open>The pairs (classifier, child) of a children mapping.\<close>

definition entries :: "(string \<times> 'id LineageTree list) list \<Rightarrow> (string \<times> 'id LineageTree) set" where
  "entries chn = {(c, t). \<exists>ts. (c, ts) \<in> set chn \<and> t \<in> set ts}"

text \<open>
  A node mirrors the collection: it has the direction, the stored home of its id, and
  exactly the edges the adjacency index has for its id. A tree mirrors the collection when
  all its nodes do and their ids are the ids reachable from its root.
\<close>

definition mirrors_node :: "'id LineageRelations \<Rightarrow> LineageDirection \<Rightarrow> 'id LineageTree \<Rightarrow> bool" where
  "mirrors_node R dir n \<longleftrightarrow>
     direction n = dir \<and> home n = home_of R (dataset_id n)
     \<and> set (node_edges n)
         = {(orient dir (dataset_id n, v), c) | v c.
              (v, c) \<in> set (get_or_empty (adjacency R dir) (dataset_id n))}"

definition mirrors :: "'id LineageRelations \<Rightarrow> LineageDirection \<Rightarrow> 'id LineageTree \<Rightarrow> bool" where
  "mirrors R dir t \<longleftrightarrow>
     (\<forall>n \<in> set (nodes t). mirrors_node R dir n)
     \<and> dataset_id ` set (nodes t) = reach_ids R (dataset_id t) dir"

text \<open>
  A diamond without a tail (4 is reached through 2 and through 3 and has no children), the
  collection built from its edges and the tree extracted from it at 1.
\<close>

definition square_edges :: "((nat \<times> nat) \<times> string) list" where
  "square_edges = [((1, 2), ''x''), ((1, 3), ''x''), ((2, 4), ''y''), ((3, 4), ''y'')]"

definition square_pool :: "nat LineageRelations" where
  "square_pool =
     \<lparr>homes = [], relations_idx = square_edges, trees_idx = [],
      relations = [\<lparr>classifier = ''x'', source_id = 1, derived_id = 2\<rparr>,
                   \<lparr>classifier = ''x'', source_id = 1, derived_id = 3\<rparr>,
                   \<lparr>classifier = ''y'', source_id = 2, derived_id = 4\<rparr>,
                   \<lparr>classifier = ''y'', source_id = 3, derived_id = 4\<rparr>],
      by_source = [(1, [(2, ''x''), (3, ''x'')]), (2, [(4, ''y'')]), (3, [(4, ''y'')])],
      by_derived = [(2, [(1, ''x'')]), (3, [(1, ''x'')]), (4, [(2, ''y''), (3, ''y'')])],
      dataset_ids = {1, 2, 3, 4}\<rparr>"

definition square_tree :: "nat LineageTree" where
  "square_tree =
     LineageTree SOURCES 1
       (Some [(''x'', [LineageTree SOURCES 2 (Some [(''y'', [leaf SOURCES 4])]) None,
                       LineageTree SOURCES 3 (Some [(''y'', [leaf SOURCES 4])]) None])])
       None"

text \<open>
  \<open>by_source\<close> and \<open>by_derived\<close> hold exactly the indexed relations: \<open>by_source[u][v] = c\<close> and
  \<open>by_derived[v][u] = c\<close> for the relation \<open>(c, u, v)\<close>.
\<close>

definition wf_adjacency :: "'id LineageRelations \<Rightarrow> bool" where
  "wf_adjacency R \<longleftrightarrow>
     (\<forall>u v c. (v, c) \<in> set (get_or_empty (by_source R) u) \<longleftrightarrow> ((u, v), c) \<in> set (relations_idx R))
     \<and> (\<forall>u v c. (u, c) \<in> set (get_or_empty (by_derived R) v) \<longleftrightarrow> ((u, v), c) \<in> set (relations_idx R))"

text \<open>
  The two invariants of the indices together. They hold in the empty collection and after
  every successful merge.
\<close>

definition wf_relations :: "'id LineageRelations \<Rightarrow> bool" where
  "wf_relations R \<longleftrightarrow> wf_index R \<and> wf_adjacency R"

text \<open>
  The ids below a node: those of all the nodes of its child trees.
\<close>

definition below_ids :: "'id LineageTree \<Rightarrow> 'id set" where
  "below_ids t = (\<Union>u \<in> set (subtrees t). dataset_id ` set (nodes u))"

text \<open>
  No node of the tree has its own id below it, which is what \<open>child_datasets\<close> checks.
\<close>

definition sound :: "'id LineageTree \<Rightarrow> bool" where
  "sound t \<longleftrightarrow> (\<forall>n \<in> set (nodes t). dataset_id n \<notin> below_ids n)"

text \<open>
  The edges of a tree whose child carries children of its own (the edges \<open>_merge_new_node\<close>
  records in \<open>_trees_idx\<close>), in the order \<open>merge_tree\<close> meets them, one entry for each occurrence.
\<close>

fun detailed :: "'id LineageTree \<Rightarrow> ('id \<times> 'id) list"
  and detailed_items :: "'id LineageTree \<Rightarrow> (string \<times> 'id LineageTree list) list \<Rightarrow> ('id \<times> 'id) list"
  and detailed_children :: "'id LineageTree \<Rightarrow> 'id LineageTree list \<Rightarrow> ('id \<times> 'id) list"
where
  "detailed (LineageTree d i ch h) =
     (case ch of None \<Rightarrow> [] | Some items \<Rightarrow> detailed_items (LineageTree d i ch h) items)"
| "detailed_items t [] = []"
| "detailed_items t ((c, chn) # rest) = detailed_children t chn @ detailed_items t rest"
| "detailed_children t [] = []"
| "detailed_children t (child # rest) =
     (if truthy_children (children child) then [edge_ids t child] else [])
       @ detailed child @ detailed_children t rest"

text \<open>
  From \<open>a\<close> to \<open>b\<close> the keys of \<open>_trees_idx\<close> grow by the entries of \<open>L\<close>, none of which was a key before
  or is listed twice.
\<close>

definition adds_keys :: "'id LineageRelations \<Rightarrow> 'id LineageRelations \<Rightarrow> ('id \<times> 'id) list \<Rightarrow> bool" where
  "adds_keys a b L \<longleftrightarrow>
     distinct L \<and> fst ` set (trees_idx a) \<inter> set L = {}
     \<and> fst ` set (trees_idx b) = fst ` set (trees_idx a) \<union> set L"

text \<open>
  A tree fits a set \<open>EC\<close> of classified edges and an assignment \<open>H\<close> of homes when every node carries
  the home \<open>H\<close> gives its id, has its edges in \<open>EC\<close> and children of its own direction; a child
  fits under a classifier when its edge is in \<open>EC\<close> too. A collection agrees with \<open>EC\<close> and \<open>H\<close>
  when its indices are in step, its relations are in \<open>EC\<close> and its stored homes are those of \<open>H\<close>.
\<close>

definition fits :: "(('id \<times> 'id) \<times> string) set \<Rightarrow> ('id \<Rightarrow> string option) \<Rightarrow> 'id LineageTree \<Rightarrow> bool" where
  "fits EC H t \<longleftrightarrow>
     (\<forall>n \<in> set (nodes t). home n = H (dataset_id n) \<and> set (node_edges n) \<subseteq> EC
        \<and> (\<forall>u \<in> set (subtrees n). direction u = direction n))"

definition fits_child ::
  "(('id \<times> 'id) \<times> string) set \<Rightarrow> ('id \<Rightarrow> string option) \<Rightarrow> 'id LineageTree \<Rightarrow> string
   \<Rightarrow> 'id LineageTree \<Rightarrow> bool" where
  "fits_child EC H tree c u \<longleftrightarrow>
     direction u = direction tree \<and> (edge_ids tree u, c) \<in> EC \<and> sound u \<and> fits EC H u"

definition agrees ::
  "(('id \<times> 'id) \<times> string) set \<Rightarrow> ('id \<Rightarrow> string option) \<Rightarrow> 'id LineageRelations \<Rightarrow> bool" where
  "agrees EC H P \<longleftrightarrow>
     wf_relations P \<and> set (relations_idx P) \<subseteq> EC
     \<and> (\<forall>k h. map_of (homes P) k = Some h \<longrightarrow> h = H k)"

text \<open>
  The recorded relations as the steps of a walk. The two directions walk the relations in
  opposite senses, and \<open>fwd\<close> names the sense: when it holds, a SOURCES walk steps from the
  \<open>source_id\<close> of a relation to its \<open>derived_id\<close> and a DERIVED walk the other way; when it
  does not hold, the two senses are exchanged. \<open>reached\<close> are the ids such a walk reaches from
  a root, \<open>leaves_from\<close> is the end of an index entry at which the walk leaves it, and \<open>met\<close>
  are the index entries that leave a reached id.
\<close>

definition walk :: "bool \<Rightarrow> 'id LineageRelations \<Rightarrow> LineageDirection \<Rightarrow> ('id \<times> 'id) set" where
  "walk fwd R dir = (if (dir = SOURCES) = fwd then edge_set R else (edge_set R)\<inverse>)"

definition reached :: "bool \<Rightarrow> 'id LineageRelations \<Rightarrow> 'id \<Rightarrow> LineageDirection \<Rightarrow> 'id set" where
  "reached fwd R root dir = {y. (root, y) \<in> (walk fwd R dir)\<^sup>*}"

definition leaves_from :: "bool \<Rightarrow> LineageDirection \<Rightarrow> ('id \<times> 'id) \<times> string \<Rightarrow> 'id" where
  "leaves_from fwd dir e = (if (dir = SOURCES) = fwd then fst (fst e) else snd (fst e))"

definition met ::
  "bool \<Rightarrow> 'id LineageRelations \<Rightarrow> 'id \<Rightarrow> LineageDirection \<Rightarrow> (('id \<times> 'id) \<times> string) set" where
  "met fwd R root dir = {e \<in> set (relations_idx R). leaves_from fwd dir e \<in> reached fwd R root dir}"

section \<open>Unfolding the model on concrete inputs\<close>

lemmas model_defs =
  empty_relations_def merge_tree_node_def merge_new_home_def truthy_children_def truthy_home_def
  merge_tree_edge_def edge_ids_def merge_new_relation_def recursion_behaviour_def
  merge_new_lineage_relation_def insert_relation_def merge_new_node_def ensure_key_def
  set_nested_def get_or_empty_def adjacency_def so_far_set_def add_child_def merge_def
  LineageRelations_init_def relations_diff_def diff_homes_loop_def diff_relations_loop_def

lemma holding_built:
  "merge_new_lineage_relation empty_relations \<lparr>classifier = c, source_id = a, derived_id = b\<rparr>
   = Inr (holding c a b)"
  by (simp add: model_defs holding_def)

lemma merge_scenario_tree:
  "u1 \<noteq> u2 \<Longrightarrow>
   merge_tree empty_relations (scenario_tree u1 u2) None 0
   = Inr \<lparr>homes = [(u1, None), (u2, None)], relations_idx = [((u1, u2), ''nbar'')],
          trees_idx = [],
          relations = [\<lparr>classifier = ''nbar'', source_id = u1, derived_id = u2\<rparr>],
          by_source = [(u1, [(u2, ''nbar'')])],
          by_derived = [(u2, [(u1, ''nbar'')])], dataset_ids = {u1, u2}\<rparr>"
  by (simp add: model_defs scenario_tree_def leaf_def insert_commute)

section \<open>The relation index\<close>

lemma update_absent: "map_of al k = None \<Longrightarrow> AList.update k v al = al @ [(k, v)]"
  by (induction al) (auto split: if_splits)

lemma wf_index_empty: "wf_index empty_relations"
  by (simp add: wf_index_def empty_relations_def)

lemma wf_index_insert:
  assumes "wf_index self" "map_of (relations_idx self) (source_id rel, derived_id rel) = None"
  shows "wf_index (insert_relation self rel)"
proof -
  let ?k = "(source_id rel, derived_id rel)"
  let ?key = "\<lambda>r::'a LineageRelation. (source_id r, derived_id r)"
  have idx: "relations_idx self = map index_of (relations self)"
    and dist: "distinct (map ?key (relations self))"
    using assms(1) by (simp_all add: wf_index_def)
  have "?k \<notin> fst ` set (relations_idx self)"
    using assms(2) by (simp add: map_of_eq_None_iff)
  then have fresh: "?k \<notin> set (map ?key (relations self))"
    by (simp add: idx index_of_def image_image)
  have new: "relations_idx (insert_relation self rel) = relations_idx self @ [index_of rel]"
    using assms(2) by (simp add: insert_relation_def update_absent index_of_def)
  have "relations_idx (insert_relation self rel) = map index_of (relations (insert_relation self rel))"
    unfolding new by (simp add: insert_relation_def idx)
  moreover have "distinct (map ?key (relations (insert_relation self rel)))"
    using dist fresh by (simp add: insert_relation_def)
  ultimately show ?thesis by (simp only: wf_index_def simp_thms)
qed

text \<open>A successful \<open>merge_new_lineage_relation\<close> either found the pair or inserted it.\<close>

lemma merge_new_lineage_relation_cases:
  assumes "merge_new_lineage_relation self rel = Inr s1"
  shows "(map_of (relations_idx self) (source_id rel, derived_id rel) = Some (classifier rel) \<and> s1 = self)
       \<or> (map_of (relations_idx self) (source_id rel, derived_id rel) = None
          \<and> s1 = (insert_relation self rel)\<lparr>dataset_ids := dataset_ids self \<union> {source_id rel, derived_id rel}\<rparr>)"
  using assms
  by (auto simp: merge_new_lineage_relation_def Let_def insert_relation_def
           split: option.splits if_splits sum.splits)

lemma wf_index_merge:
  assumes "wf_index self" "merge_new_lineage_relation self rel = Inr s1"
  shows "wf_index s1"
proof -
  from merge_new_lineage_relation_cases[OF assms(2)] show ?thesis
  proof
    assume "map_of (relations_idx self) (source_id rel, derived_id rel) = Some (classifier rel) \<and> s1 = self"
    then show ?thesis using assms(1) by simp
  next
    assume a: "map_of (relations_idx self) (source_id rel, derived_id rel) = None
          \<and> s1 = (insert_relation self rel)\<lparr>dataset_ids := dataset_ids self \<union> {source_id rel, derived_id rel}\<rparr>"
    then have "wf_index (insert_relation self rel)" using wf_index_insert[OF assms(1)] by blast
    then show ?thesis using a by (simp add: wf_index_def)
  qed
qed

lemma idx_after_merge:
  assumes "merge_new_lineage_relation self rel = Inr s1"
  shows "map_of (relations_idx s1) (source_id rel, derived_id rel) = Some (classifier rel)"
  using merge_new_lineage_relation_cases[OF assms]
  by (auto simp: insert_relation_def update_conv')

lemma wf_index_filter:
  assumes "wf_index self" "map_of (relations_idx self) (a, b) = Some c"
  shows "filter (\<lambda>r. source_id r = a \<and> derived_id r = b) (relations self)
         = [\<lparr>classifier = c, source_id = a, derived_id = b\<rparr>]"
proof -
  have "distinct (map (\<lambda>r. (source_id r, derived_id r)) rs) \<Longrightarrow> map_of (map index_of rs) (a, b) = Some c \<Longrightarrow>
        filter (\<lambda>r. source_id r = a \<and> derived_id r = b) rs
         = [\<lparr>classifier = c, source_id = a, derived_id = b\<rparr>]" for rs :: "'a LineageRelation list"
  proof (induction rs)
    case Nil
    then show ?case by simp
  next
    case (Cons r rs)
    show ?case
    proof (cases "source_id r = a \<and> derived_id r = b")
      case True
      then have "(a, b) \<notin> (\<lambda>r. (source_id r, derived_id r)) ` set rs"
        using Cons.prems(1) by auto
      then have "filter (\<lambda>r. source_id r = a \<and> derived_id r = b) rs = []"
        by (auto simp: filter_empty_conv image_iff)
      moreover have "classifier r = c" using True Cons.prems(2) by (simp add: index_of_def)
      ultimately show ?thesis using True by simp
    next
      case False
      then show ?thesis using Cons by (auto simp: index_of_def)
    qed
  qed
  from this[of "relations self"] show ?thesis
    using assms unfolding wf_index_def by metis
qed

section \<open>extract_tree raises exactly on a path that repeats an id\<close>

lemma blocked_unfold:
  "blocked E B x \<longleftrightarrow> x \<in> B \<or> (\<exists>y. (x, y) \<in> E \<and> blocked E (insert x B) y)"
proof
  assume "blocked E B x"
  then obtain p where p: "path_from E x p" "\<not> distinct (x # p) \<or> set (x # p) \<inter> B \<noteq> {}"
    by (auto simp: blocked_def)
  show "x \<in> B \<or> (\<exists>y. (x, y) \<in> E \<and> blocked E (insert x B) y)"
  proof (cases "x \<in> B")
    case True
    then show ?thesis by simp
  next
    case False
    show ?thesis
    proof (cases p)
      case Nil
      then show ?thesis using p False by simp
    next
      case (Cons y q)
      then have "(x, y) \<in> E" "path_from E y q" using p(1) by simp_all
      moreover have "\<not> distinct (y # q) \<or> set (y # q) \<inter> insert x B \<noteq> {}"
        using p(2) False Cons by auto
      ultimately have "(x, y) \<in> E \<and> blocked E (insert x B) y"
        unfolding blocked_def by blast
      then show ?thesis by blast
    qed
  qed
next
  assume "x \<in> B \<or> (\<exists>y. (x, y) \<in> E \<and> blocked E (insert x B) y)"
  then show "blocked E B x"
  proof
    assume "x \<in> B"
    then have "path_from E x [] \<and> (\<not> distinct (x # []) \<or> set (x # []) \<inter> B \<noteq> {})" by simp
    then show ?thesis unfolding blocked_def by blast
  next
    assume "\<exists>y. (x, y) \<in> E \<and> blocked E (insert x B) y"
    then obtain y q where y: "(x, y) \<in> E" "path_from E y q"
        "\<not> distinct (y # q) \<or> set (y # q) \<inter> insert x B \<noteq> {}"
      by (auto simp: blocked_def)
    then have "path_from E x (y # q) \<and> (\<not> distinct (x # y # q) \<or> set (x # y # q) \<inter> B \<noteq> {})"
      by auto
    then show ?thesis unfolding blocked_def by blast
  qed
qed

lemma adj_edges_iff:
  "(x, y) \<in> adj_edges self dir \<longleftrightarrow> y \<in> fst ` set (get_or_empty (adjacency self dir) x)"
  by (simp add: adj_edges_def)

lemma extract_raises_iff:
  "isl (extract_tree self root dir so_far) \<longleftrightarrow> blocked (adj_edges self dir) (so_far_set so_far) root"
  "isl (extract_subtrees self dir B todo chn) \<longleftrightarrow> (\<exists>d \<in> fst ` set todo. blocked (adj_edges self dir) B d)"
proof (induction self root dir so_far and self dir B todo chn rule: extract_tree_extract_subtrees.induct)
  case (1 self root dir so_far)
  show ?case
  proof (cases "root \<in> so_far_set so_far")
    case True
    then show ?thesis by (subst blocked_unfold) simp
  next
    case False
    have "isl (extract_tree self root dir so_far)
        \<longleftrightarrow> isl (extract_subtrees self dir (insert root (so_far_set so_far))
                (get_or_empty (adjacency self dir) root) [])"
      using False by (simp split: sum.splits)
    also have "\<dots> \<longleftrightarrow> (\<exists>d \<in> fst ` set (get_or_empty (adjacency self dir) root).
                   blocked (adj_edges self dir) (insert root (so_far_set so_far)) d)"
      using 1[OF False] .
    also have "\<dots> \<longleftrightarrow> blocked (adj_edges self dir) (so_far_set so_far) root"
      using False by (subst (2) blocked_unfold) (auto simp: adj_edges_iff)
    finally show ?thesis .
  qed
next
  case (2 self dir so_far chn)
  then show ?case by simp
next
  case (3 self dir so_far dsid c rest chn)
  show ?case
  proof (cases "extract_tree self dsid dir (Some so_far)")
    case (Inl e)
    then have "blocked (adj_edges self dir) so_far dsid"
      using 3(1) by (simp add: so_far_set_def)
    then show ?thesis using Inl by simp
  next
    case (Inr subtree)
    then have "\<not> blocked (adj_edges self dir) so_far dsid"
      using 3(1) by (simp add: so_far_set_def)
    then show ?thesis using Inr 3(2)[OF Inr] by simp
  qed
qed

lemma extract_error_kind:
  "extract_tree self root dir so_far = Inl e \<Longrightarrow> e = InconsistentLineageException CyclicGraph"
  "extract_subtrees self dir B todo chn = Inl e \<Longrightarrow> e = InconsistentLineageException CyclicGraph"
proof (induction self root dir so_far and self dir B todo chn rule: extract_tree_extract_subtrees.induct)
  case (1 self root dir so_far)
  then show ?case by (auto split: if_splits sum.splits)
next
  case (2 self dir so_far chn)
  then show ?case by simp
next
  case (3 self dir so_far dsid c rest chn)
  then show ?case by (auto split: sum.splits)
qed

lemma set_update_subset: "set (AList.update k v al) \<subseteq> insert (k, v) (set al)"
  by (induction al) auto

lemma all_expanded_add_child:
  assumes "all_expanded chn" "expanded t"
  shows "all_expanded (add_child c t chn)"
proof (cases "map_of chn c")
  case None
  then have "set (add_child c t chn) \<subseteq> insert (c, [t]) (set chn)"
    by (simp add: add_child_def set_update_subset)
  then show ?thesis using assms unfolding all_expanded_def by fastforce
next
  case (Some ts)
  then have "(c, ts) \<in> set chn" by (rule map_of_SomeD)
  moreover have "set (add_child c t chn) \<subseteq> insert (c, ts @ [t]) (set chn)"
    using Some by (simp add: add_child_def set_update_subset)
  ultimately show ?thesis using assms unfolding all_expanded_def by fastforce
qed

lemma extract_expanded:
  "extract_tree self root dir so_far = Inr t \<Longrightarrow> expanded t"
  "extract_subtrees self dir B todo chn = Inr chn' \<Longrightarrow> all_expanded chn \<Longrightarrow> all_expanded chn'"
proof (induction self root dir so_far and self dir B todo chn arbitrary: t and chn' rule: extract_tree_extract_subtrees.induct)
  case (1 self root dir so_far)
  then show ?case by (auto split: if_splits sum.splits simp: all_expanded_def)
next
  case (2 self dir so_far chn)
  then show ?case by simp
next
  case (3 self dir so_far dsid c rest chn)
  then show ?case by (auto split: sum.splits intro: all_expanded_add_child)
qed

section \<open>What merge_tree adds\<close>

lemma concat_map_items:
  "concat (map (\<lambda>(c, ts). concat (map f ts)) items) = concat (map f (concat (map snd items)))"
  by (induction items) auto

lemma nodes_subtrees: "nodes t = t # concat (map nodes (subtrees t))"
  by (cases t) (simp add: subtrees_def concat_map_items split: option.splits)

lemma visited_step:
  "visited (depth_limit p d) t =
     insert t (if fst (recursion_behaviour p d)
               then below (depth_limit (Some t) (snd (recursion_behaviour p d))) (subtrees t)
               else {})"
proof -
  consider "d \<le> 0" | "d \<ge> 1" "p = None" | "d = 1" "p \<noteq> None" | "d \<ge> 2" "p \<noteq> None"
    by fastforce
  then show ?thesis
  proof cases
    case 1
    then show ?thesis
      by (auto simp: depth_limit_def recursion_behaviour_def visited_def below_def nodes_subtrees[of t])
  next
    case 2
    then obtain n where "nat d = Suc n" by (cases "nat d") auto
    with 2 show ?thesis
      by (auto simp: depth_limit_def recursion_behaviour_def visited_def below_def)
  next
    case 3
    then show ?thesis
      by (auto simp: depth_limit_def recursion_behaviour_def visited_def below_def)
  next
    case 4
    then obtain n where n: "nat d - 1 = Suc n" by (cases "nat d - 1") auto
    then have "nat (d - 1) - 1 = n" by simp
    with 4 n show ?thesis
      by (auto simp: depth_limit_def recursion_behaviour_def visited_def below_def)
  qed
qed

lemma homes_grow_refl: "homes_grow s s {}"
  by (simp add: homes_grow_def)

lemma homes_grow_trans:
  assumes "homes_grow a b N1" "homes_grow b c N2"
  shows "homes_grow a c (N1 \<union> N2)"
  unfolding homes_grow_def
proof (intro conjI allI impI)
  show "fst ` set (homes c) = fst ` set (homes a) \<union> dataset_id ` (N1 \<union> N2)"
    using assms by (auto simp: homes_grow_def)
next
  fix k v assume "map_of (homes a) k = Some v"
  then show "map_of (homes c) k = Some v"
    using assms by (simp add: homes_grow_def)
next
  fix k assume k: "map_of (homes a) k = None" "k \<in> dataset_id ` (N1 \<union> N2)"
  show "\<exists>n \<in> N1 \<union> N2. dataset_id n = k \<and> map_of (homes c) k = Some (home n)"
  proof (cases "k \<in> dataset_id ` N1")
    case True
    then obtain n where "n \<in> N1" "dataset_id n = k" "map_of (homes b) k = Some (home n)"
      using assms(1) k(1) unfolding homes_grow_def by blast
    moreover from this have "map_of (homes c) k = Some (home n)"
      using assms(2) by (simp add: homes_grow_def)
    ultimately show ?thesis by blast
  next
    case False
    then have "k \<notin> fst ` set (homes b)"
      using assms(1) k(1) by (auto simp: homes_grow_def map_of_eq_None_iff)
    then have "map_of (homes b) k = None" by (simp add: map_of_eq_None_iff)
    moreover have "k \<in> dataset_id ` N2" using k(2) False by auto
    ultimately obtain n where "n \<in> N2" "dataset_id n = k" "map_of (homes c) k = Some (home n)"
      using assms(2) unfolding homes_grow_def by blast
    then show ?thesis by blast
  qed
qed

lemma merged_refl: "merged s s {} {}"
  by (simp add: merged_def homes_grow_refl)

lemma merged_trans:
  assumes "merged a b N1 E1" "merged b c N2 E2"
  shows "merged a c (N1 \<union> N2) (E1 \<union> E2)"
  using assms homes_grow_trans[of a b N1 c N2]
  by (auto simp: merged_def)

lemma merge_tree_node_home:
  "merge_tree_node self t = Inr s' \<Longrightarrow> merge_new_home self (dataset_id t) (home t) = Inr s'"
  by (auto simp: merge_tree_node_def split: sum.splits if_splits)

lemma merge_new_home_merged:
  assumes "merge_new_home self (dataset_id t) (home t) = Inr s'"
  shows "merged self s' {t} {}"
proof (cases "map_of (homes self) (dataset_id t)")
  case None
  then have s': "s' = self\<lparr>homes := homes self @ [(dataset_id t, home t)]\<rparr>"
    using assms by (simp add: merge_new_home_def update_absent)
  have "dataset_id t \<notin> fst ` set (homes self)"
    using None by (simp add: map_of_eq_None_iff)
  then have "map_of (homes self @ [(dataset_id t, home t)]) k = Some v"
    if "map_of (homes self) k = Some v" for k v
    using that by (simp add: map_add_Some_iff)
  moreover have "map_of (homes self @ [(dataset_id t, home t)]) (dataset_id t) = Some (home t)"
    using None by (simp add: map_add_Some_iff)
  ultimately show ?thesis
    unfolding merged_def homes_grow_def s' by (auto simp: wf_index_def)
next
  case (Some v)
  then have "s' = self" using assms by (auto simp: merge_new_home_def split: if_splits)
  moreover have "dataset_id t \<in> fst ` set (homes self)"
    using Some by (metis map_of_eq_None_iff option.distinct(1))
  ultimately show ?thesis
    using Some unfolding merged_def homes_grow_def by auto
qed

lemma merge_tree_edge_merged:
  assumes "merge_tree_edge self t c child = Inr s'"
  shows "merged self s' {} {(edge_ids t child, c)}"
proof -
  obtain s1 where s1: "merge_new_relation self (edge_ids t child) c = Inr s1"
    and s': "merge_new_node s1 (edge_ids t child) child = Inr s'"
    using assms by (auto simp: merge_tree_edge_def Let_def split: if_splits sum.splits)
  let ?rel = "\<lparr>classifier = c, source_id = fst (edge_ids t child), derived_id = snd (edge_ids t child)\<rparr>"
  have m: "merge_new_lineage_relation self ?rel = Inr s1"
    using s1 by (simp add: merge_new_relation_def)
  have h1: "homes s1 = homes self"
    using merge_new_lineage_relation_cases[OF m] by (auto simp: insert_relation_def)
  have r1: "set (relations_idx s1) = set (relations_idx self) \<union> {(edge_ids t child, c)}"
    using merge_new_lineage_relation_cases[OF m]
    by (auto simp: insert_relation_def update_absent dest: map_of_SomeD)
  have w1: "wf_index self \<Longrightarrow> wf_index s1"
    using wf_index_merge[OF _ m] .
  have "s' = s1 \<or> s' = s1\<lparr>trees_idx := AList.update (edge_ids t child) child (trees_idx s1)\<rparr>"
    using s' by (auto simp: merge_new_node_def Let_def split: if_splits)
  then have "homes s' = homes s1" "relations_idx s' = relations_idx s1" "wf_index s1 \<Longrightarrow> wf_index s'"
    by (auto simp: wf_index_def)
  then show ?thesis
    using h1 r1 w1 by (simp add: merged_def homes_grow_def)
qed


lemma below_simps:
  "below lim [] = {}"
  "below lim (t # ts) = visited lim t \<union> below lim ts"
  "below lim (ts @ us) = below lim ts \<union> below lim us"
  by (auto simp: below_def)

lemma edges_of_simps:
  "edges_of {} = {}"
  "edges_of (insert n N) = set (node_edges n) \<union> edges_of N"
  "edges_of (N \<union> M) = edges_of N \<union> edges_of M"
  by (auto simp: edges_of_def)

lemma item_edges_simps:
  "item_edges t [] = []"
  "set (item_edges t ((c, ts) # rest)) = (\<lambda>child. (edge_ids t child, c)) ` set ts \<union> set (item_edges t rest)"
  by (auto simp: item_edges_def)

lemma merge_tree_merged:
  "merge_tree self t p d = Inr s' \<Longrightarrow>
     merged self s' (visited (depth_limit p d) t) (edges_of (visited (depth_limit p d) t))"
  "merge_tree_items self tree recurse nmd items = Inr s' \<Longrightarrow>
     merged self s'
       (if recurse then below (depth_limit (Some tree) nmd) (concat (map snd items)) else {})
       (set (item_edges tree items)
        \<union> (if recurse then edges_of (below (depth_limit (Some tree) nmd) (concat (map snd items))) else {}))"
  "merge_tree_children self tree recurse nmd c chn = Inr s' \<Longrightarrow>
     merged self s'
       (if recurse then below (depth_limit (Some tree) nmd) chn else {})
       ((\<lambda>child. (edge_ids tree child, c)) ` set chn
        \<union> (if recurse then edges_of (below (depth_limit (Some tree) nmd) chn) else {}))"
proof (induction self t p d and self tree recurse nmd items and self tree recurse nmd c chn
       arbitrary: s' and s' and s'
       rule: merge_tree_merge_tree_items_merge_tree_children.induct)
  case (1 self d i ch h parent_node max_depth)
  let ?t = "LineageTree d i ch h"
  let ?lim = "depth_limit parent_node max_depth"
  let ?rec = "fst (recursion_behaviour parent_node max_depth)"
  let ?nmd = "snd (recursion_behaviour parent_node max_depth)"
  obtain b where b: "merge_tree_node self ?t = Inr b"
    using "1.prems" by (auto split: sum.splits)
  have mb: "merged self b {?t} {}"
    using merge_new_home_merged[OF merge_tree_node_home[OF b]] .
  show ?case
  proof (cases ch)
    case None
    then have "s' = b" using "1.prems" b by simp
    moreover have "visited ?lim ?t = {?t}"
      by (subst visited_step) (simp add: None subtrees_def below_simps)
    moreover have "node_edges ?t = []" using None by (simp add: node_edges_def)
    ultimately show ?thesis using mb by (simp add: edges_of_simps)
  next
    case (Some items)
    then have run: "merge_tree_items b ?t ?rec ?nmd items = Inr s'"
      using "1.prems" b by simp
    note ih = "1.IH"[OF b Some run]
    have sub: "subtrees ?t = concat (map snd items)" using Some by (simp add: subtrees_def)
    have ne: "node_edges ?t = item_edges ?t items" using Some by (simp add: node_edges_def)
    have v: "visited ?lim ?t
        = {?t} \<union> (if ?rec then below (depth_limit (Some ?t) ?nmd) (concat (map snd items)) else {})"
      by (subst visited_step) (simp add: sub)
    have e: "edges_of (visited ?lim ?t)
        = {} \<union> (set (item_edges ?t items)
           \<union> (if ?rec then edges_of (below (depth_limit (Some ?t) ?nmd) (concat (map snd items))) else {}))"
      unfolding v by (simp add: edges_of_simps ne)
    show ?thesis
      unfolding e unfolding v by (rule merged_trans[OF mb ih])
  qed
next
  case (2 self tree recurse next_max_depth)
  then show ?case by (simp add: merged_refl below_simps edges_of_simps item_edges_simps)
next
  case (3 self tree recurse next_max_depth c chn rest)
  obtain b where b: "merge_tree_children self tree recurse next_max_depth c chn = Inr b"
    and run: "merge_tree_items b tree recurse next_max_depth rest = Inr s'"
    using "3.prems" by (auto split: sum.splits)
  from merged_trans[OF "3.IH"(1)[OF b] "3.IH"(2)[OF b run]]
  show ?case
    by (simp add: below_simps edges_of_simps item_edges_simps Un_ac split: if_splits)
next
  case (4 self tree recurse next_max_depth c)
  then show ?case by (simp add: merged_refl below_simps edges_of_simps)
next
  case (5 self tree recurse next_max_depth c child rest)
  obtain b where b: "merge_tree_edge self tree c child = Inr b"
    using "5.prems" by (auto split: sum.splits)
  have mb: "merged self b {} {(edge_ids tree child, c)}"
    using merge_tree_edge_merged[OF b] .
  show ?case
  proof (cases recurse)
    case True
    then obtain b' where b': "merge_tree b child (Some tree) next_max_depth = Inr b'"
      and run: "merge_tree_children b' tree recurse next_max_depth c rest = Inr s'"
      using "5.prems" b by (auto split: sum.splits)
    from merged_trans[OF merged_trans[OF mb "5.IH"(1)[OF b True b']] "5.IH"(2)[OF b True b' run]]
    show ?thesis
      using True by (simp add: below_simps edges_of_simps Un_ac)
  next
    case False
    then have run: "merge_tree_children b tree recurse next_max_depth c rest = Inr s'"
      using "5.prems" b by simp
    from merged_trans[OF mb "5.IH"(3)[OF b False run]]
    show ?thesis
      using False by (simp add: below_simps edges_of_simps Un_ac)
  qed
qed


lemma visited_root_unbounded: "visited (depth_limit None 0) t = set (nodes t)"
  by (simp add: depth_limit_def visited_def)

lemma visited_root_one: "visited (depth_limit None 1) t = set (nodes_upto 1 t)"
  by (simp add: depth_limit_def visited_def)

lemma deep_tree_depth_one:
  "merge_tree empty_relations deep_tree None 1
   = Inr \<lparr>homes = [(1, Some ''h1''), (2, Some ''h2'')],
          relations_idx = [((1, 2), ''x''), ((2, 3), ''y'')],
          trees_idx =
            [((1, 2), LineageTree SOURCES 2
                (Some [(''y'', [LineageTree SOURCES 3 (Some [(''z'', [leaf SOURCES 4])]) (Some ''h3'')])])
                (Some ''h2'')),
             ((2, 3), LineageTree SOURCES 3 (Some [(''z'', [leaf SOURCES 4])]) (Some ''h3''))],
          relations = [\<lparr>classifier = ''x'', source_id = 1, derived_id = 2\<rparr>,
                       \<lparr>classifier = ''y'', source_id = 2, derived_id = 3\<rparr>],
          by_source = [(1, [(2, ''x'')]), (2, [(3, ''y'')])],
          by_derived = [(2, [(1, ''x'')]), (3, [(2, ''y'')])],
          dataset_ids = {1, 2, 3}\<rparr>"
  by code_simp

lemma deep_tree_unbounded:
  "merge_tree empty_relations deep_tree None 0
   = Inr \<lparr>homes = [(1, Some ''h1''), (2, Some ''h2''), (3, Some ''h3''), (4, None)],
          relations_idx = [((1, 2), ''x''), ((2, 3), ''y''), ((3, 4), ''z'')],
          trees_idx =
            [((1, 2), LineageTree SOURCES 2
                (Some [(''y'', [LineageTree SOURCES 3 (Some [(''z'', [leaf SOURCES 4])]) (Some ''h3'')])])
                (Some ''h2'')),
             ((2, 3), LineageTree SOURCES 3 (Some [(''z'', [leaf SOURCES 4])]) (Some ''h3''))],
          relations = [\<lparr>classifier = ''x'', source_id = 1, derived_id = 2\<rparr>,
                       \<lparr>classifier = ''y'', source_id = 2, derived_id = 3\<rparr>,
                       \<lparr>classifier = ''z'', source_id = 3, derived_id = 4\<rparr>],
          by_source = [(1, [(2, ''x'')]), (2, [(3, ''y'')]), (3, [(4, ''z'')])],
          by_derived = [(2, [(1, ''x'')]), (3, [(2, ''y'')]), (4, [(3, ''z'')])],
          dataset_ids = {1, 2, 3, 4}\<rparr>"
  by code_simp

lemma deep_tree_edges:
  "(\<Union>n \<in> set (nodes_upto 1 deep_tree). set (node_edges n)) = {((1, 2), ''x''), ((2, 3), ''y'')}"
  "(\<Union>n \<in> set (nodes deep_tree). set (node_edges n)) = {((1, 2), ''x''), ((2, 3), ''y''), ((3, 4), ''z'')}"
  "dataset_id ` set (nodes_upto 1 deep_tree) = {1, 2}"
  "dataset_id ` set (nodes deep_tree) = {1, 2, 3, 4}"
  by (auto simp: deep_tree_def leaf_def subtrees_def node_edges_def item_edges_def edge_ids_def)

section \<open>Homes are never replaced\<close>

lemma merge_new_home_kept:
  assumes "merge_new_home self i h = Inr s'" "map_of (homes self) k = Some v"
  shows "map_of (homes s') k = Some v"
proof (cases "map_of (homes self) i")
  case None
  then have "k \<noteq> i" using assms(2) by auto
  moreover have "s' = self\<lparr>homes := AList.update i h (homes self)\<rparr>"
    using assms(1) None by (simp add: merge_new_home_def)
  ultimately show ?thesis using assms(2) by (simp add: update_conv')
next
  case (Some w)
  then have "s' = self" using assms(1) by (auto simp: merge_new_home_def split: if_splits)
  then show ?thesis using assms(2) by simp
qed

lemma merge_new_relation_homes:
  "merge_new_relation self ids c = Inr s' \<Longrightarrow> homes s' = homes self"
  unfolding merge_new_relation_def
  by (drule merge_new_lineage_relation_cases) (auto simp: insert_relation_def)

lemma merge_new_node_homes:
  "merge_new_node self ids node = Inr s' \<Longrightarrow> homes s' = homes self"
  by (auto simp: merge_new_node_def Let_def split: if_splits)

lemma merge_homes_kept:
  "merge_homes self hs = Inr s' \<Longrightarrow> map_of (homes self) k = Some v \<Longrightarrow> map_of (homes s') k = Some v"
proof (induction self hs rule: merge_homes.induct)
  case (1 self)
  then show ?case by simp
next
  case (2 self dsid hm rest)
  then show ?case by (auto split: sum.splits dest: merge_new_home_kept)
qed

lemma merge_relations_homes:
  "merge_relations self rs = Inr s' \<Longrightarrow> homes s' = homes self"
proof (induction self rs rule: merge_relations.induct)
  case (1 self)
  then show ?case by simp
next
  case (2 self ids c rest)
  then show ?case by (auto split: sum.splits dest: merge_new_relation_homes)
qed

lemma merge_nodes_homes:
  "merge_nodes self ns = Inr s' \<Longrightarrow> homes s' = homes self"
proof (induction self ns rule: merge_nodes.induct)
  case (1 self)
  then show ?case by simp
next
  case (2 self ids node rest)
  then show ?case by (auto split: sum.splits dest: merge_new_node_homes)
qed

lemma merge_homes_preserved:
  assumes "merge self pool = Inr s'" "map_of (homes self) k = Some v"
  shows "map_of (homes s') k = Some v"
proof -
  obtain s1 s2 where s1: "merge_homes self (homes pool) = Inr s1"
    and s2: "merge_relations s1 (relations_idx pool) = Inr s2"
    and s3: "merge_nodes s2 (trees_idx pool) = Inr s'"
    using assms(1) by (auto simp: merge_def split: sum.splits)
  show ?thesis
    using merge_homes_kept[OF s1 assms(2)] merge_relations_homes[OF s2] merge_nodes_homes[OF s3]
    by simp
qed

lemma root_visited: "t \<in> visited (depth_limit p d) t"
  by (subst visited_step) simp

section \<open>Merging twice\<close>

lemma kept_homes: "kept a b \<Longrightarrow> map_of (homes a) k = Some v \<Longrightarrow> map_of (homes b) k = Some v"
  unfolding kept_def by blast

lemma kept_relations:
  "kept a b \<Longrightarrow> map_of (relations_idx a) k = Some v \<Longrightarrow> map_of (relations_idx b) k = Some v"
  unfolding kept_def by blast

lemma kept_refl: "kept a a"
  by (simp add: kept_def)

lemma kept_trans: "kept a b \<Longrightarrow> kept b c \<Longrightarrow> kept a c"
  by (simp add: kept_def)

lemma merge_new_home_keeps: "merge_new_home self i h = Inr s' \<Longrightarrow> kept self s'"
  unfolding kept_def
proof (intro conjI allI impI)
  fix k v assume "merge_new_home self i h = Inr s'" "map_of (homes self) k = Some v"
  then show "map_of (homes s') k = Some v" by (rule merge_new_home_kept)
next
  fix k v assume "merge_new_home self i h = Inr s'" "map_of (relations_idx self) k = Some v"
  then show "map_of (relations_idx s') k = Some v"
    by (auto simp: merge_new_home_def split: option.splits if_splits)
qed

lemma merge_new_relation_keeps: "merge_new_relation self ids c = Inr s' \<Longrightarrow> kept self s'"
  unfolding merge_new_relation_def
  by (drule merge_new_lineage_relation_cases) (auto simp: kept_def insert_relation_def update_conv')

lemma merge_new_node_keeps: "merge_new_node self ids node = Inr s' \<Longrightarrow> kept self s'"
  by (auto simp: merge_new_node_def Let_def kept_def split: if_splits)

lemma merge_tree_node_keeps: "merge_tree_node self t = Inr s' \<Longrightarrow> kept self s'"
  by (rule merge_new_home_keeps[OF merge_tree_node_home])

lemma merge_tree_edge_keeps:
  assumes "merge_tree_edge self t c child = Inr s'"
  shows "kept self s'"
proof -
  obtain s1 where s1: "merge_new_relation self (edge_ids t child) c = Inr s1"
    "merge_new_node s1 (edge_ids t child) child = Inr s'"
    using assms by (auto simp: merge_tree_edge_def Let_def split: if_splits sum.splits)
  show ?thesis
    by (rule kept_trans[OF merge_new_relation_keeps[OF s1(1)] merge_new_node_keeps[OF s1(2)]])
qed

lemma merge_homes_keeps: "merge_homes self hs = Inr s' \<Longrightarrow> kept self s'"
proof (induction self hs rule: merge_homes.induct)
  case (1 self)
  then show ?case by (simp add: kept_refl)
next
  case (2 self dsid hm rest)
  then obtain a1 where a1: "merge_new_home self dsid hm = Inr a1" "merge_homes a1 rest = Inr s'"
    by (auto split: sum.splits)
  show ?case
    by (rule kept_trans[OF merge_new_home_keeps[OF a1(1)] "2.IH"[OF a1]])
qed

lemma merge_relations_keeps: "merge_relations self rs = Inr s' \<Longrightarrow> kept self s'"
proof (induction self rs rule: merge_relations.induct)
  case (1 self)
  then show ?case by (simp add: kept_refl)
next
  case (2 self ids c rest)
  then obtain a1 where a1: "merge_new_relation self ids c = Inr a1" "merge_relations a1 rest = Inr s'"
    by (auto split: sum.splits)
  show ?case
    by (rule kept_trans[OF merge_new_relation_keeps[OF a1(1)] "2.IH"[OF a1]])
qed

text \<open>Once merged, a home or a relation merges again without effect in any later state.\<close>

lemma home_settled:
  assumes "merge_new_home a i h = Inr b" "kept b c"
  shows "merge_new_home c i h = Inr c"
proof -
  obtain v where v: "map_of (homes b) i = Some v" "\<not> (truthy_home v \<and> v \<noteq> h)"
    using assms(1) by (auto simp: merge_new_home_def update_conv' split: option.splits if_splits)
  then have "map_of (homes c) i = Some v" using kept_homes[OF assms(2)] by simp
  then show ?thesis using v(2) by (auto simp: merge_new_home_def)
qed

lemma relation_settled:
  assumes "merge_new_relation a ids cl = Inr b" "kept b c"
  shows "merge_new_relation c ids cl = Inr c"
proof -
  have "map_of (relations_idx b) ids = Some cl"
    using idx_after_merge[OF assms(1)[unfolded merge_new_relation_def]] by simp
  then have "map_of (relations_idx c) ids = Some cl" by (rule kept_relations[OF assms(2)])
  then show ?thesis by (simp add: merge_new_relation_def merge_new_lineage_relation_def)
qed

lemma merge_homes_settled:
  "merge_homes a hs = Inr b \<Longrightarrow> kept b c \<Longrightarrow> merge_homes c hs = Inr c"
proof (induction a hs rule: merge_homes.induct)
  case (1 self)
  then show ?case by simp
next
  case (2 self dsid hm rest)
  then obtain a1 where a1: "merge_new_home self dsid hm = Inr a1" "merge_homes a1 rest = Inr b"
    by (auto split: sum.splits)
  have "kept a1 c" using kept_trans[OF merge_homes_keeps[OF a1(2)] "2.prems"(2)] .
  then have "merge_new_home c dsid hm = Inr c" using home_settled[OF a1(1)] by simp
  moreover have "merge_homes c rest = Inr c" using "2.IH"[OF a1 "2.prems"(2)] .
  ultimately show ?case by simp
qed

lemma merge_relations_settled:
  "merge_relations a rs = Inr b \<Longrightarrow> kept b c \<Longrightarrow> merge_relations c rs = Inr c"
proof (induction a rs rule: merge_relations.induct)
  case (1 self)
  then show ?case by simp
next
  case (2 self ids cl rest)
  then obtain a1 where a1: "merge_new_relation self ids cl = Inr a1" "merge_relations a1 rest = Inr b"
    by (auto split: sum.splits)
  have "kept a1 c" using kept_trans[OF merge_relations_keeps[OF a1(2)] "2.prems"(2)] .
  then have "merge_new_relation c ids cl = Inr c" using relation_settled[OF a1(1)] by simp
  moreover have "merge_relations c rest = Inr c" using "2.IH"[OF a1 "2.prems"(2)] .
  ultimately show ?case by simp
qed

lemma merge_twice:
  assumes "trees_idx pool = []" "merge self pool = Inr s1"
  shows "merge s1 pool = Inr s1"
proof -
  obtain a b where a: "merge_homes self (homes pool) = Inr a"
    and b: "merge_relations a (relations_idx pool) = Inr b"
    and c: "merge_nodes b (trees_idx pool) = Inr s1"
    using assms(2) by (auto simp: merge_def split: sum.splits)
  have eq: "s1 = b" using c assms(1) by simp
  have "merge_homes s1 (homes pool) = Inr s1"
    using merge_homes_settled[OF a merge_relations_keeps[OF b]] eq by simp
  moreover have "merge_relations s1 (relations_idx pool) = Inr s1"
    using merge_relations_settled[OF b kept_refl] eq by simp
  ultimately show ?thesis using assms(1) by (simp add: merge_def)
qed

lemma merge_tree_keeps:
  "merge_tree self t p d = Inr s' \<Longrightarrow> kept self s'"
  "merge_tree_items self tree recurse nmd items = Inr s' \<Longrightarrow> kept self s'"
  "merge_tree_children self tree recurse nmd c chn = Inr s' \<Longrightarrow> kept self s'"
proof (induction self t p d and self tree recurse nmd items and self tree recurse nmd c chn
       arbitrary: s' and s' and s'
       rule: merge_tree_merge_tree_items_merge_tree_children.induct)
  case (1 self d i ch h parent_node max_depth)
  obtain b where b: "merge_tree_node self (LineageTree d i ch h) = Inr b"
    using "1.prems" by (auto split: sum.splits)
  show ?case
  proof (cases ch)
    case None
    then show ?thesis using "1.prems" b merge_tree_node_keeps[OF b] by simp
  next
    case (Some items)
    then have "merge_tree_items b (LineageTree d i ch h) (fst (recursion_behaviour parent_node max_depth))
        (snd (recursion_behaviour parent_node max_depth)) items = Inr s'"
      using "1.prems" b by simp
    from kept_trans[OF merge_tree_node_keeps[OF b] "1.IH"[OF b Some this]] show ?thesis .
  qed
next
  case (2 self tree recurse next_max_depth)
  then show ?case by (simp add: kept_refl)
next
  case (3 self tree recurse next_max_depth c chn rest)
  obtain b where b: "merge_tree_children self tree recurse next_max_depth c chn = Inr b"
    and run: "merge_tree_items b tree recurse next_max_depth rest = Inr s'"
    using "3.prems" by (auto split: sum.splits)
  from kept_trans[OF "3.IH"(1)[OF b] "3.IH"(2)[OF b run]] show ?case .
next
  case (4 self tree recurse next_max_depth c)
  then show ?case by (simp add: kept_refl)
next
  case (5 self tree recurse next_max_depth c child rest)
  obtain b where b: "merge_tree_edge self tree c child = Inr b"
    using "5.prems" by (auto split: sum.splits)
  show ?case
  proof (cases recurse)
    case True
    then obtain b' where b': "merge_tree b child (Some tree) next_max_depth = Inr b'"
      and run: "merge_tree_children b' tree recurse next_max_depth c rest = Inr s'"
      using "5.prems" b by (auto split: sum.splits)
    from kept_trans[OF merge_tree_edge_keeps[OF b]
        kept_trans[OF "5.IH"(1)[OF b True b'] "5.IH"(2)[OF b True b' run]]]
    show ?thesis .
  next
    case False
    then have run: "merge_tree_children b tree recurse next_max_depth c rest = Inr s'"
      using "5.prems" b by simp
    from kept_trans[OF merge_tree_edge_keeps[OF b] "5.IH"(3)[OF b False run]]
    show ?thesis .
  qed
qed

lemma cyclic_fromI: "(x, y) \<in> E\<^sup>* \<Longrightarrow> (y, y) \<in> E\<^sup>+ \<Longrightarrow> cyclic_from E x"
  unfolding cyclic_from_def by blast

lemma path_from_reach: "path_from E x p \<Longrightarrow> z \<in> set p \<Longrightarrow> (x, z) \<in> E\<^sup>+"
proof (induction p arbitrary: x)
  case Nil
  then show ?case by simp
next
  case (Cons y q)
  then have xy: "(x, y) \<in> E" and q: "path_from E y q" by simp_all
  show ?case
  proof (cases "z = y")
    case True
    then show ?thesis using xy by (simp add: r_into_trancl')
  next
    case False
    then have "z \<in> set q" using Cons.prems(2) by simp
    from xy Cons.IH[OF q this] show ?thesis by (rule trancl_into_trancl2)
  qed
qed

lemma repeat_cyclic: "path_from E x p \<Longrightarrow> \<not> distinct (x # p) \<Longrightarrow> cyclic_from E x"
proof (induction p arbitrary: x)
  case Nil
  then show ?case by simp
next
  case (Cons y q)
  show ?case
  proof (cases "x \<in> set (y # q)")
    case True
    from path_from_reach[OF Cons.prems(1) True] show ?thesis
      by (rule cyclic_fromI[OF rtrancl_refl])
  next
    case False
    then have nd: "\<not> distinct (y # q)" using Cons.prems(2) by simp
    have q: "path_from E y q" and xy: "(x, y) \<in> E" using Cons.prems(1) by simp_all
    obtain z where z: "(y, z) \<in> E\<^sup>*" "(z, z) \<in> E\<^sup>+"
      using Cons.IH[OF q nd] unfolding cyclic_from_def by blast
    from xy z(1) have "(x, z) \<in> E\<^sup>*" by (rule converse_rtrancl_into_rtrancl)
    then show ?thesis using z(2) by (rule cyclic_fromI)
  qed
qed

lemma path_from_append:
  "path_from E x p \<Longrightarrow> path_from E (last (x # p)) q \<Longrightarrow> path_from E x (p @ q)"
  by (induction p arbitrary: x) auto

lemma rtrancl_path: "(x, y) \<in> E\<^sup>* \<Longrightarrow> \<exists>p. path_from E x p \<and> last (x # p) = y"
proof (induction rule: converse_rtrancl_induct)
  case base
  have "path_from E y [] \<and> last (y # []) = y" by simp
  then show ?case by (rule exI)
next
  case (step x z)
  then obtain p where "path_from E z p" "last (z # p) = y" by blast
  with step(1) have "path_from E x (z # p) \<and> last (x # z # p) = y" by simp
  then show ?case by (rule exI)
qed

lemma cyclic_repeat:
  assumes "cyclic_from E x"
  shows "\<exists>p. path_from E x p \<and> \<not> distinct (x # p)"
proof -
  obtain y where xy: "(x, y) \<in> E\<^sup>*" and yy: "(y, y) \<in> E\<^sup>+"
    using assms unfolding cyclic_from_def by blast
  obtain p where p: "path_from E x p" "last (x # p) = y" using rtrancl_path[OF xy] by blast
  obtain z where z: "(y, z) \<in> E" "(z, y) \<in> E\<^sup>*" using tranclD[OF yy] by blast
  obtain q where q: "path_from E z q" "last (z # q) = y" using rtrancl_path[OF z(2)] by blast
  have "path_from E y (z # q)" using z(1) q(1) by simp
  then have path: "path_from E x (p @ z # q)" using p by (simp add: path_from_append)
  have "last (x # p) \<in> set (x # p)" by (rule last_in_set) simp
  then have y1: "y \<in> set (x # p)" using p(2) by simp
  have "last (z # q) \<in> set (z # q)" by (rule last_in_set) simp
  then have y2: "y \<in> set (z # q)" using q(2) by simp
  have "\<not> distinct ((x # p) @ (z # q))" using y1 y2 by (simp only: distinct_append) blast
  then have "path_from E x (p @ z # q) \<and> \<not> distinct (x # p @ z # q)"
    using path by simp
  then show ?thesis by (rule exI)
qed

lemma blocked_iff_cyclic: "blocked E {} x \<longleftrightarrow> cyclic_from E x"
proof
  assume "blocked E {} x"
  then obtain p where "path_from E x p" "\<not> distinct (x # p)"
    unfolding blocked_def by auto
  then show "cyclic_from E x" by (rule repeat_cyclic)
next
  assume "cyclic_from E x"
  from cyclic_repeat[OF this] show "blocked E {} x"
    unfolding blocked_def by auto
qed

lemma extract_succeeds_iff:
  "(\<exists>t. extract_tree self root dir None = Inr t) \<longleftrightarrow> \<not> cyclic_from (adj_edges self dir) root"
proof -
  have "isl (extract_tree self root dir None) \<longleftrightarrow> cyclic_from (adj_edges self dir) root"
    unfolding extract_raises_iff by (simp add: so_far_set_def blocked_iff_cyclic)
  then show ?thesis by (cases "extract_tree self root dir None") auto
qed

lemma cyclic_from_insert:
  assumes "\<not> cyclic_from (insert (c, r) G) c" "\<not> cyclic_from G x"
  shows "\<not> cyclic_from (insert (c, r) G) x"
proof
  let ?G' = "insert (c, r) G"
  assume "cyclic_from ?G' x"
  then obtain y where xy: "(x, y) \<in> ?G'\<^sup>*" and yy: "(y, y) \<in> ?G'\<^sup>+"
    unfolding cyclic_from_def by blast
  have sub: "(a, b) \<in> ?G'\<^sup>*" if "(a, b) \<in> G\<^sup>*" for a b
    using that rtrancl_mono[of G ?G'] by blast
  have cr: "(c, r) \<in> ?G'" by simp
  have via_c: False if "(r, y') \<in> G\<^sup>*" "(y', y') \<in> ?G'\<^sup>+" for y'
  proof -
    from cr sub[OF that(1)] have "(c, y') \<in> ?G'\<^sup>*" by (rule converse_rtrancl_into_rtrancl)
    then have "cyclic_from ?G' c" using that(2) by (rule cyclic_fromI)
    then show False using assms(1) by simp
  qed
  from yy have "(y, y) \<in> G\<^sup>+ \<or> ((y, c) \<in> G\<^sup>* \<and> (r, y) \<in> G\<^sup>*)"
    by (simp add: trancl_insert)
  then show False
  proof
    assume "(y, c) \<in> G\<^sup>* \<and> (r, y) \<in> G\<^sup>*"
    then show False using via_c[OF _ yy] by blast
  next
    assume gy: "(y, y) \<in> G\<^sup>+"
    have "(x, y) \<in> G\<^sup>* \<or> (r, y) \<in> G\<^sup>*"
    proof (cases "x = y")
      case True
      then show ?thesis by simp
    next
      case False
      then have "(x, y) \<in> ?G'\<^sup>+" using rtranclD[OF xy] by blast
      then have "(x, y) \<in> G\<^sup>+ \<or> ((x, c) \<in> G\<^sup>* \<and> (r, y) \<in> G\<^sup>*)"
        by (simp add: trancl_insert)
      then show ?thesis
      proof
        assume "(x, y) \<in> G\<^sup>+"
        then have "(x, y) \<in> G\<^sup>*" by (rule trancl_into_rtrancl)
        then show ?thesis by simp
      next
        assume "(x, c) \<in> G\<^sup>* \<and> (r, y) \<in> G\<^sup>*"
        then show ?thesis by simp
      qed
    qed
    then show False
    proof
      assume "(x, y) \<in> G\<^sup>*"
      then have "cyclic_from G x" using gy by (rule cyclic_fromI)
      then show False using assms(2) by simp
    next
      assume "(r, y) \<in> G\<^sup>*"
      then show False using via_c[OF _ yy] by blast
    qed
  qed
qed

lemma get_or_empty_ensure_key: "get_or_empty (ensure_key k d) u = get_or_empty d u"
  by (simp add: get_or_empty_def ensure_key_def update_conv')

lemma get_or_empty_set_nested:
  "get_or_empty (set_nested k1 k2 v (ensure_key k1 d)) u
   = (if u = k1 then AList.update k2 v (get_or_empty d k1) else get_or_empty d u)"
proof -
  have "get_or_empty (set_nested k1 k2 v d') u
      = (if u = k1 then AList.update k2 v (get_or_empty d' k1) else get_or_empty d' u)" for d'
    by (simp add: set_nested_def get_or_empty_def update_conv')
  then show ?thesis by (simp add: get_or_empty_ensure_key)
qed

lemma adj_edges_grow:
  assumes "\<And>u. F' u = (if u = s then insert d (F s) else F u)"
  shows "{(u, v). v \<in> F' u} = insert (s, d) {(u, v). v \<in> F u}"
  using assms by (auto split: if_splits)

lemma adj_edges_insert_relation:
  "adj_edges (insert_relation S rel) SOURCES = insert (source_id rel, derived_id rel) (adj_edges S SOURCES)"
  "adj_edges (insert_relation S rel) DERIVED = insert (derived_id rel, source_id rel) (adj_edges S DERIVED)"
proof -
  have "fst ` set (get_or_empty (by_source (insert_relation S rel)) u)
      = (if u = source_id rel then insert (derived_id rel) (fst ` set (get_or_empty (by_source S) (source_id rel)))
         else fst ` set (get_or_empty (by_source S) u))" for u
    by (simp add: insert_relation_def get_or_empty_set_nested dom_update)
  from adj_edges_grow[of "\<lambda>u. fst ` set (get_or_empty (by_source (insert_relation S rel)) u)"
      "source_id rel" "derived_id rel" "\<lambda>u. fst ` set (get_or_empty (by_source S) u)", OF this]
  show "adj_edges (insert_relation S rel) SOURCES
      = insert (source_id rel, derived_id rel) (adj_edges S SOURCES)"
    by (simp add: adj_edges_def adjacency_def)
  have "fst ` set (get_or_empty (by_derived (insert_relation S rel)) u)
      = (if u = derived_id rel then insert (source_id rel) (fst ` set (get_or_empty (by_derived S) (derived_id rel)))
         else fst ` set (get_or_empty (by_derived S) u))" for u
    by (simp add: insert_relation_def get_or_empty_set_nested dom_update)
  from adj_edges_grow[of "\<lambda>u. fst ` set (get_or_empty (by_derived (insert_relation S rel)) u)"
      "derived_id rel" "source_id rel" "\<lambda>u. fst ` set (get_or_empty (by_derived S) u)", OF this]
  show "adj_edges (insert_relation S rel) DERIVED
      = insert (derived_id rel, source_id rel) (adj_edges S DERIVED)"
    by (simp add: adj_edges_def adjacency_def)
qed

lemma adj_edges_cong:
  "by_source a = by_source b \<Longrightarrow> by_derived a = by_derived b \<Longrightarrow> adj_edges a dir = adj_edges b dir"
  by (simp add: adj_edges_def adjacency_def)

lemma merge_new_home_adj: "merge_new_home S i h = Inr S' \<Longrightarrow> adj_edges S' dir = adj_edges S dir"
  by (rule adj_edges_cong) (auto simp: merge_new_home_def split: option.splits if_splits)

lemma merge_tree_node_adj: "merge_tree_node S t = Inr S' \<Longrightarrow> adj_edges S' dir = adj_edges S dir"
  by (rule merge_new_home_adj[OF merge_tree_node_home])

lemma merge_new_node_adj: "merge_new_node S ids n = Inr S' \<Longrightarrow> adj_edges S' dir = adj_edges S dir"
  by (rule adj_edges_cong) (auto simp: merge_new_node_def Let_def split: if_splits)

lemma merge_tree_edge_adj:
  assumes "merge_tree_edge S T cl child = Inr S'"
  shows "adj_edges S' (opposite (direction T)) = adj_edges S (opposite (direction T))
       \<or> adj_edges S' (opposite (direction T))
           = insert (dataset_id child, dataset_id T) (adj_edges S (opposite (direction T)))"
proof -
  let ?ids = "edge_ids T child"
  let ?rel = "\<lparr>classifier = cl, source_id = fst ?ids, derived_id = snd ?ids\<rparr>"
  obtain s1 where s1: "merge_new_lineage_relation S ?rel = Inr s1"
    and s': "merge_new_node s1 ?ids child = Inr S'"
    using assms
    by (auto simp: merge_tree_edge_def merge_new_relation_def Let_def split: if_splits sum.splits)
  have same: "adj_edges S' dir = adj_edges s1 dir" for dir
    using merge_new_node_adj[OF s'] .
  from merge_new_lineage_relation_cases[OF s1] show ?thesis
  proof
    assume "map_of (relations_idx S) (source_id ?rel, derived_id ?rel) = Some (classifier ?rel) \<and> s1 = S"
    then show ?thesis using same by simp
  next
    assume "map_of (relations_idx S) (source_id ?rel, derived_id ?rel) = None \<and>
      s1 = insert_relation S ?rel\<lparr>dataset_ids := dataset_ids S \<union> {source_id ?rel, derived_id ?rel}\<rparr>"
    then have "adj_edges s1 dir = adj_edges (insert_relation S ?rel) dir" for dir
      by (intro adj_edges_cong) simp_all
    then have "adj_edges S' (opposite (direction T))
        = insert (dataset_id child, dataset_id T) (adj_edges S (opposite (direction T)))"
      unfolding same by (cases "direction T") (simp_all add: adj_edges_insert_relation edge_ids_def)
    then show ?thesis by simp
  qed
qed

lemma leafy_merge_tree: "leafy c \<Longrightarrow> merge_tree a c p d = merge_tree_node a c"
  by (cases c) (auto simp: leafy_def truthy_children_def split: sum.splits option.splits)

lemma child_datasets_of_node: "merge_tree_node a t = Inr b \<Longrightarrow> \<exists>ds. child_datasets t = Inr ds"
  by (auto simp: merge_tree_node_def split: sum.splits)

lemma leafy_node_checked:
  assumes "leafy t" "merge_tree_node a t = Inr b"
  shows "\<not> cyclic_from (adj_edges b (opposite (direction t))) (dataset_id t)"
proof -
  have "\<exists>x. extract_tree b (dataset_id t) (opposite (direction t)) None = Inr x"
    using assms by (auto simp: merge_tree_node_def leafy_def split: sum.splits if_splits)
  from this[unfolded extract_succeeds_iff] show ?thesis .
qed

lemma node_settled:
  assumes "merge_tree_node a t = Inr b" "kept b c"
    and "leafy t \<Longrightarrow> \<not> cyclic_from (adj_edges c (opposite (direction t))) (dataset_id t)"
  shows "merge_tree_node c t = Inr c"
proof -
  obtain ds where ds: "child_datasets t = Inr ds"
    using child_datasets_of_node[OF assms(1)] by blast
  have hm: "merge_new_home c (dataset_id t) (home t) = Inr c"
    using home_settled[OF merge_tree_node_home[OF assms(1)] assms(2)] .
  show ?thesis
  proof (cases "leafy t")
    case True
    then obtain x where "extract_tree c (dataset_id t) (opposite (direction t)) None = Inr x"
      using assms(3) extract_succeeds_iff[of c "dataset_id t" "opposite (direction t)"] by blast
    then show ?thesis using ds hm by (simp add: merge_tree_node_def)
  next
    case False
    then show ?thesis using ds hm by (simp add: merge_tree_node_def leafy_def)
  qed
qed

lemma edge_settled:
  assumes "merge_tree_edge a T cl child = Inr b" "leafy child" "kept b c"
  shows "merge_tree_edge c T cl child = Inr c"
proof -
  have dir: "direction child = direction T"
    using assms(1) by (auto simp: merge_tree_edge_def split: if_splits)
  obtain a0 where a0: "merge_new_relation a (edge_ids T child) cl = Inr a0"
    and b: "merge_new_node a0 (edge_ids T child) child = Inr b"
    using assms(1) by (auto simp: merge_tree_edge_def Let_def split: if_splits sum.splits)
  have "b = a0" using b assms(2) by (simp add: merge_new_node_def leafy_def)
  then have "merge_new_relation c (edge_ids T child) cl = Inr c"
    using relation_settled[OF a0] assms(3) by simp
  moreover have "merge_new_node c (edge_ids T child) child = Inr c"
    using assms(2) by (simp add: merge_new_node_def leafy_def)
  ultimately show ?thesis using dir by (simp add: merge_tree_edge_def)
qed

lemma first_run_children:
  assumes "merge_tree_children a T True nmd cl chn = Inr b"
    and "\<forall>c \<in> set chn. leafy c"
    and "\<forall>x \<in> X. \<not> cyclic_from (adj_edges a (opposite (direction T))) x"
  shows "\<forall>x \<in> X \<union> dataset_id ` set chn. \<not> cyclic_from (adj_edges b (opposite (direction T))) x"
  using assms
proof (induction chn arbitrary: a X)
  case Nil
  then show ?case by simp
next
  case (Cons child rest)
  let ?opp = "opposite (direction T)"
  obtain a1 a2 where a1: "merge_tree_edge a T cl child = Inr a1"
    and a2: "merge_tree a1 child (Some T) nmd = Inr a2"
    and rest: "merge_tree_children a2 T True nmd cl rest = Inr b"
    using Cons.prems(1) by (auto split: sum.splits)
  have leaf: "leafy child" using Cons.prems(2) by simp
  have node: "merge_tree_node a1 child = Inr a2"
    using a2 leafy_merge_tree[OF leaf] by simp
  have dir: "direction child = direction T"
    using a1 by (auto simp: merge_tree_edge_def split: if_splits)
  have adj2: "adj_edges a2 ?opp = adj_edges a1 ?opp"
    using merge_tree_node_adj[OF node] .
  have child_ok: "\<not> cyclic_from (adj_edges a1 ?opp) (dataset_id child)"
    using leafy_node_checked[OF leaf node] dir adj2 by simp
  have old_ok: "\<not> cyclic_from (adj_edges a1 ?opp) x" if "x \<in> X" for x
  proof -
    have x: "\<not> cyclic_from (adj_edges a ?opp) x" using Cons.prems(3) that by blast
    from merge_tree_edge_adj[OF a1] show ?thesis
    proof
      assume "adj_edges a1 ?opp = adj_edges a ?opp"
      then show ?thesis using x by simp
    next
      assume eq: "adj_edges a1 ?opp = insert (dataset_id child, dataset_id T) (adj_edges a ?opp)"
      show ?thesis
        using cyclic_from_insert[OF child_ok[unfolded eq] x] unfolding eq .
    qed
  qed
  have "\<forall>x \<in> insert (dataset_id child) X. \<not> cyclic_from (adj_edges a2 ?opp) x"
    unfolding adj2 using child_ok old_ok by blast
  from Cons.IH[OF rest _ this] Cons.prems(2) show ?case by simp
qed

lemma first_run_items:
  assumes "merge_tree_items a T True nmd items = Inr b"
    and "\<forall>c \<in> set (concat (map snd items)). leafy c"
    and "\<forall>x \<in> X. \<not> cyclic_from (adj_edges a (opposite (direction T))) x"
  shows "\<forall>x \<in> X \<union> dataset_id ` set (concat (map snd items)).
           \<not> cyclic_from (adj_edges b (opposite (direction T))) x"
  using assms
proof (induction items arbitrary: a X)
  case Nil
  then show ?case by simp
next
  case (Cons item rest)
  obtain cl chn where item: "item = (cl, chn)" by (cases item)
  obtain a1 where a1: "merge_tree_children a T True nmd cl chn = Inr a1"
    and run: "merge_tree_items a1 T True nmd rest = Inr b"
    using Cons.prems(1) item by (auto split: sum.splits)
  have "\<forall>c \<in> set chn. leafy c" using Cons.prems(2) item by simp
  from first_run_children[OF a1 this Cons.prems(3)]
  have mid: "\<forall>x \<in> X \<union> dataset_id ` set chn. \<not> cyclic_from (adj_edges a1 (opposite (direction T))) x" .
  have "\<forall>c \<in> set (concat (map snd rest)). leafy c" using Cons.prems(2) by simp
  from Cons.IH[OF run this mid] show ?case using item by (simp add: Un_assoc image_Un)
qed

lemma second_run_children:
  assumes "merge_tree_children a T recurse nmd cl chn = Inr b"
    and "\<forall>c \<in> set chn. leafy c"
    and "kept b c'"
    and "recurse \<longrightarrow> (\<forall>c \<in> set chn. \<not> cyclic_from (adj_edges c' (opposite (direction T))) (dataset_id c))"
  shows "merge_tree_children c' T recurse nmd cl chn = Inr c'"
  using assms
proof (induction chn arbitrary: a)
  case Nil
  then show ?case by simp
next
  case (Cons child rest)
  obtain a1 where a1: "merge_tree_edge a T cl child = Inr a1"
    using Cons.prems(1) by (auto split: sum.splits)
  have leaf: "leafy child" and leaves: "\<forall>c \<in> set rest. leafy c" using Cons.prems(2) by simp_all
  have dir: "direction child = direction T"
    using a1 by (auto simp: merge_tree_edge_def split: if_splits)
  show ?case
  proof (cases recurse)
    case True
    then obtain a2 where a2: "merge_tree a1 child (Some T) nmd = Inr a2"
      and rest: "merge_tree_children a2 T recurse nmd cl rest = Inr b"
      using Cons.prems(1) a1 by (auto split: sum.splits)
    have node: "merge_tree_node a1 child = Inr a2"
      using a2 leafy_merge_tree[OF leaf] by simp
    have k2: "kept a2 c'"
      using kept_trans[OF merge_tree_keeps(3)[OF rest] Cons.prems(3)] .
    have k1: "kept a1 c'"
      using kept_trans[OF merge_tree_node_keeps[OF node] k2] .
    have edge: "merge_tree_edge c' T cl child = Inr c'"
      using edge_settled[OF a1 leaf k1] .
    have "\<not> cyclic_from (adj_edges c' (opposite (direction child))) (dataset_id child)"
      using Cons.prems(4) True dir by simp
    then have "merge_tree_node c' child = Inr c'"
      using node_settled[OF node k2] by blast
    then have visit: "merge_tree c' child (Some T) nmd = Inr c'"
      using leafy_merge_tree[OF leaf] by simp
    have "merge_tree_children c' T recurse nmd cl rest = Inr c'"
      using Cons.IH[OF rest leaves Cons.prems(3)] Cons.prems(4) by simp
    then show ?thesis using edge visit True by simp
  next
    case False
    then have rest: "merge_tree_children a1 T recurse nmd cl rest = Inr b"
      using Cons.prems(1) a1 by simp
    have k1: "kept a1 c'"
      using kept_trans[OF merge_tree_keeps(3)[OF rest] Cons.prems(3)] .
    have edge: "merge_tree_edge c' T cl child = Inr c'"
      using edge_settled[OF a1 leaf k1] .
    have "merge_tree_children c' T recurse nmd cl rest = Inr c'"
      using Cons.IH[OF rest leaves Cons.prems(3)] False by simp
    then show ?thesis using edge False by simp
  qed
qed

lemma second_run_items:
  assumes "merge_tree_items a T recurse nmd items = Inr b"
    and "\<forall>c \<in> set (concat (map snd items)). leafy c"
    and "kept b c'"
    and "recurse \<longrightarrow> (\<forall>c \<in> set (concat (map snd items)).
           \<not> cyclic_from (adj_edges c' (opposite (direction T))) (dataset_id c))"
  shows "merge_tree_items c' T recurse nmd items = Inr c'"
  using assms
proof (induction items arbitrary: a)
  case Nil
  then show ?case by simp
next
  case (Cons item rest)
  obtain cl chn where item: "item = (cl, chn)" by (cases item)
  obtain a1 where a1: "merge_tree_children a T recurse nmd cl chn = Inr a1"
    and run: "merge_tree_items a1 T recurse nmd rest = Inr b"
    using Cons.prems(1) item by (auto split: sum.splits)
  have k1: "kept a1 c'"
    using kept_trans[OF merge_tree_keeps(2)[OF run] Cons.prems(3)] .
  have l1: "\<forall>c \<in> set chn. leafy c"
    and l2: "\<forall>c \<in> set (concat (map snd rest)). leafy c"
    using Cons.prems(2) item by simp_all
  have c1: "recurse \<longrightarrow> (\<forall>c \<in> set chn.
      \<not> cyclic_from (adj_edges c' (opposite (direction T))) (dataset_id c))"
    and c2: "recurse \<longrightarrow> (\<forall>c \<in> set (concat (map snd rest)).
      \<not> cyclic_from (adj_edges c' (opposite (direction T))) (dataset_id c))"
    using Cons.prems(4) item by simp_all
  have "merge_tree_children c' T recurse nmd cl chn = Inr c'"
    using second_run_children[OF a1 l1 k1 c1] .
  moreover have "merge_tree_items c' T recurse nmd rest = Inr c'"
    using Cons.IH[OF run l2 Cons.prems(3) c2] .
  ultimately show ?case using item by simp
qed

lemma merge_tree_twice:
  assumes "\<forall>c \<in> set (subtrees T). leafy c" "merge_tree S T p d = Inr S1"
  shows "merge_tree S1 T p d = Inr S1"
proof (cases T)
  case (LineageTree dr i ch h)
  let ?rec = "fst (recursion_behaviour p d)"
  let ?nmd = "snd (recursion_behaviour p d)"
  obtain b where b: "merge_tree_node S T = Inr b"
    using assms(2) LineageTree by (auto split: sum.splits)
  show ?thesis
  proof (cases ch)
    case None
    then have eq: "S1 = b" using assms(2) b LineageTree by simp
    have "leafy T" using None LineageTree by (simp add: leafy_def truthy_children_def)
    then have "merge_tree_node b T = Inr b"
      using node_settled[OF b kept_refl] leafy_node_checked[OF _ b] by blast
    then show ?thesis using eq None LineageTree by simp
  next
    case (Some items)
    then have run: "merge_tree_items b T ?rec ?nmd items = Inr S1"
      using assms(2) b LineageTree by simp
    have sub: "subtrees T = concat (map snd items)"
      using Some LineageTree by (simp add: subtrees_def)
    have leaves: "\<forall>c \<in> set (concat (map snd items)). leafy c"
      using assms(1) sub by simp
    have kb: "kept b S1" using merge_tree_keeps(2)[OF run] .
    have root_ok: "\<not> cyclic_from (adj_edges S1 (opposite (direction T))) (dataset_id T)" if "leafy T"
    proof -
      have "items = []" using that Some LineageTree by (simp add: leafy_def truthy_children_def)
      then have "S1 = b" using run by simp
      then show ?thesis using leafy_node_checked[OF that b] by simp
    qed
    have node: "merge_tree_node S1 T = Inr S1"
      using node_settled[OF b kb root_ok] .
    have cond: "?rec \<longrightarrow> (\<forall>c \<in> set (concat (map snd items)).
        \<not> cyclic_from (adj_edges S1 (opposite (direction T))) (dataset_id c))"
    proof
      assume r: "?rec"
      show "\<forall>c \<in> set (concat (map snd items)).
        \<not> cyclic_from (adj_edges S1 (opposite (direction T))) (dataset_id c)"
        using first_run_items[of b T ?nmd items S1 "{}", OF run[unfolded eqTrueI[OF r]] leaves]
        by simp
    qed
    have "merge_tree_items S1 T ?rec ?nmd items = Inr S1"
      using second_run_items[OF run leaves kept_refl cond] .
    then show ?thesis using node Some LineageTree by simp
  qed
qed

section \<open>Extraction followed by merging\<close>

lemma entries_Nil: "entries [] = {}"
  by (simp add: entries_def)

lemma entries_update_Some:
  "map_of chn c = Some ts \<Longrightarrow> entries (AList.update c (ts @ [t]) chn) = insert (c, t) (entries chn)"
proof (induction chn)
  case Nil
  then show ?case by simp
next
  case (Cons kv rest)
  obtain k v where kv: "kv = (k, v)" by (cases kv)
  have split: "entries (p # xs) = {(fst p, u) | u. u \<in> set (snd p)} \<union> entries xs" for p :: "string \<times> 'a LineageTree list" and xs
    by (cases p) (auto simp: entries_def)
  show ?case
  proof (cases "k = c")
    case True
    then have "v = ts" using Cons.prems kv by simp
    then show ?thesis using True kv by (auto simp: split)
  next
    case False
    then have "map_of rest c = Some ts" using Cons.prems kv by simp
    from Cons.IH[OF this] show ?thesis using False kv by (auto simp: split)
  qed
qed

lemma entries_update_None:
  "map_of chn c = None \<Longrightarrow> entries (AList.update c [t] chn) = insert (c, t) (entries chn)"
  by (auto simp: update_absent entries_def)

lemma entries_add_child: "entries (add_child c t chn) = insert (c, t) (entries chn)"
  by (cases "map_of chn c") (simp_all add: add_child_def entries_update_None entries_update_Some)

lemma subtrees_entries: "children t = Some chn \<Longrightarrow> set (subtrees t) = snd ` entries chn"
  by (force simp: subtrees_def entries_def)

lemma node_edges_entries:
  "children t = Some chn \<Longrightarrow> set (node_edges t) = (\<lambda>(c, u). (edge_ids t u, c)) ` entries chn"
  by (force simp: node_edges_def item_edges_def entries_def)

lemma extract_subtrees_entries:
  "extract_subtrees R dir B todo chn = Inr chn' \<Longrightarrow>
     entries chn' = entries chn
        \<union> {(c, sub) | c sub d. (d, c) \<in> set todo \<and> extract_tree R d dir (Some B) = Inr sub}
     \<and> (\<forall>(d, c) \<in> set todo. \<exists>sub. extract_tree R d dir (Some B) = Inr sub)"
proof (induction todo arbitrary: chn)
  case Nil
  then show ?case by simp
next
  case (Cons dc rest)
  obtain d c where dc: "dc = (d, c)" by (cases dc)
  obtain sub where sub: "extract_tree R d dir (Some B) = Inr sub"
    and run: "extract_subtrees R dir B rest (add_child c sub chn) = Inr chn'"
    using Cons.prems dc by (auto split: sum.splits simp del: extract_tree.simps)
  from Cons.IH[OF run] sub dc show ?case
    by (auto simp: entries_add_child simp del: extract_tree.simps)
qed

lemma extract_tree_root:
  assumes "extract_tree R x dir sf = Inr t"
  shows "dataset_id t = x" "direction t = dir" "home t = home_of R x"
    "\<exists>chn. children t = Some chn
       \<and> extract_subtrees R dir (insert x (so_far_set sf)) (get_or_empty (adjacency R dir) x) [] = Inr chn"
  using assms by (auto simp: home_of_def split: if_splits sum.splits)

lemma reach_ids_unfold:
  "reach_ids R x dir = insert x (\<Union>d \<in> fst ` set (get_or_empty (adjacency R dir) x). reach_ids R d dir)"
proof -
  have "(x, y) \<in> (adj_edges R dir)\<^sup>* \<longleftrightarrow>
      y = x \<or> (\<exists>d. (x, d) \<in> adj_edges R dir \<and> (d, y) \<in> (adj_edges R dir)\<^sup>*)" for y
    by (metis converse_rtranclE converse_rtrancl_into_rtrancl rtrancl.rtrancl_refl)
  then show ?thesis
    by (auto simp: reach_ids_def adj_edges_iff)
qed

lemma edge_ids_orient: "edge_ids t u = orient (direction t) (dataset_id t, dataset_id u)"
  by (simp add: edge_ids_def orient_def)

lemma mirrors_root:
  assumes t: "dataset_id t = x" "direction t = dir" "home t = home_of R x" "children t = Some chn"
    and ent: "entries chn = {(c, sub) | c sub d. (d, c) \<in> set adj \<and> ex d = Inr sub}"
    and all: "\<forall>(d, c) \<in> set adj. \<exists>sub. ex d = Inr sub"
    and adj: "adj = get_or_empty (adjacency R dir) x"
    and ids: "\<And>d sub. ex d = Inr sub \<Longrightarrow> dataset_id sub = d"
    and sub: "\<And>d c sub. (d, c) \<in> set adj \<Longrightarrow> ex d = Inr sub \<Longrightarrow> mirrors R dir sub"
  shows "mirrors R dir t"
proof -
  have subs: "set (subtrees t) = {sub. \<exists>d c. (d, c) \<in> set adj \<and> ex d = Inr sub}"
    unfolding subtrees_entries[OF t(4)] ent by force
  have sub_ids: "dataset_id ` set (subtrees t) = fst ` set adj"
  proof
    show "dataset_id ` set (subtrees t) \<subseteq> fst ` set adj"
      unfolding subs using ids by force
    show "fst ` set adj \<subseteq> dataset_id ` set (subtrees t)"
    proof
      fix d assume "d \<in> fst ` set adj"
      then obtain c where dc: "(d, c) \<in> set adj" by auto
      then obtain u where u: "ex d = Inr u" using all by blast
      then have "u \<in> set (subtrees t)" using dc unfolding subs by blast
      moreover have "dataset_id u = d" using ids[OF u] .
      ultimately show "d \<in> dataset_id ` set (subtrees t)" by blast
    qed
  qed
  have sub_ok: "mirrors R dir u" if "u \<in> set (subtrees t)" for u
    using that sub unfolding subs by blast
  have edges: "set (node_edges t) = {(orient dir (x, v), c) | v c. (v, c) \<in> set adj}"
  proof
    show "set (node_edges t) \<subseteq> {(orient dir (x, v), c) | v c. (v, c) \<in> set adj}"
      unfolding node_edges_entries[OF t(4)] ent using ids t(1,2)
      by (auto simp: edge_ids_orient)
    show "{(orient dir (x, v), c) | v c. (v, c) \<in> set adj} \<subseteq> set (node_edges t)"
    proof
      fix e assume "e \<in> {(orient dir (x, v), c) | v c. (v, c) \<in> set adj}"
      then obtain v c where e: "e = (orient dir (x, v), c)" and vc: "(v, c) \<in> set adj" by blast
      obtain u where u: "ex v = Inr u" using all vc by blast
      then have "(c, u) \<in> entries chn" unfolding ent using vc by blast
      moreover have "(edge_ids t u, c) = e"
        using ids[OF u] t(1,2) e by (simp add: edge_ids_orient)
      ultimately show "e \<in> set (node_edges t)"
        unfolding node_edges_entries[OF t(4)] by force
    qed
  qed
  have root: "mirrors_node R dir t"
    unfolding mirrors_node_def using t(1,2,3) edges adj by simp
  have nodes: "set (nodes t) = insert t (\<Union>u \<in> set (subtrees t). set (nodes u))"
    by (subst nodes_subtrees) simp
  have all_nodes: "\<forall>n \<in> set (nodes t). mirrors_node R dir n"
    unfolding nodes using root sub_ok by (auto simp: mirrors_def)
  have "dataset_id ` set (nodes t)
      = insert x (\<Union>u \<in> set (subtrees t). dataset_id ` set (nodes u))"
    unfolding nodes using t(1) by auto
  also have "\<dots> = insert x (\<Union>u \<in> set (subtrees t). reach_ids R (dataset_id u) dir)"
    using sub_ok by (simp add: mirrors_def)
  also have "\<dots> = insert x (\<Union>d \<in> dataset_id ` set (subtrees t). reach_ids R d dir)"
    by simp
  also have "\<dots> = reach_ids R x dir"
    unfolding sub_ids adj by (rule reach_ids_unfold[symmetric])
  finally show ?thesis
    using all_nodes t(1) by (simp add: mirrors_def)
qed

lemma extract_mirrors:
  "extract_tree R x dir sf = Inr t \<Longrightarrow> mirrors R dir t"
  "extract_subtrees R dir B todo chn = Inr chn' \<Longrightarrow>
     \<forall>(d, c) \<in> set todo. \<forall>sub. extract_tree R d dir (Some B) = Inr sub \<longrightarrow> mirrors R dir sub"
proof (induction R x dir sf and R dir B todo chn arbitrary: t and chn'
       rule: extract_tree_extract_subtrees.induct)
  case (1 self root dir so_far)
  let ?B = "insert root (so_far_set so_far)"
  let ?adj = "get_or_empty (adjacency self dir) root"
  have fresh: "root \<notin> so_far_set so_far"
    using "1.prems" by (auto split: if_splits)
  from extract_tree_root[OF "1.prems"] obtain chn where
    t: "dataset_id t = root" "direction t = dir" "home t = home_of self root" "children t = Some chn"
    and run: "extract_subtrees self dir ?B ?adj [] = Inr chn"
    by blast
  from extract_subtrees_entries[OF run]
  have ent: "entries chn = {(c, sub) | c sub d. (d, c) \<in> set ?adj \<and> extract_tree self d dir (Some ?B) = Inr sub}"
    and all: "\<forall>(d, c) \<in> set ?adj. \<exists>sub. extract_tree self d dir (Some ?B) = Inr sub"
    by (simp_all add: entries_Nil del: extract_tree.simps)
  have ids: "dataset_id sub = d" if "extract_tree self d dir (Some ?B) = Inr sub" for d sub
    using extract_tree_root(1)[OF that] .
  have sub: "mirrors self dir sub"
    if "(d, c) \<in> set ?adj" "extract_tree self d dir (Some ?B) = Inr sub" for d c sub
    using "1.IH"[OF fresh run] that by blast
  show ?case
    by (rule mirrors_root[OF t ent all refl ids sub])
next
  case (2 self dir so_far chn)
  then show ?case by simp
next
  case (3 self dir so_far dsid c rest chn)
  obtain subtree where st: "extract_tree self dsid dir (Some so_far) = Inr subtree"
    and run: "extract_subtrees self dir so_far rest (add_child c subtree chn) = Inr chn'"
    using "3.prems" by (auto split: sum.splits simp del: extract_tree.simps)
  have "mirrors self dir subtree" using "3.IH"(1)[OF st] .
  moreover note "3.IH"(2)[OF st run]
  ultimately show ?case using st by (auto simp del: extract_tree.simps)
qed

lemma square_built: "merge_relations empty_relations square_edges = Inr square_pool"
  by code_simp

lemma square_extracted: "extract_tree square_pool 1 SOURCES None = Inr square_tree"
  by code_simp

lemma square_merged:
  "merge_tree empty_relations square_tree None 0
   = Inr \<lparr>homes = [(1, None), (2, None), (4, None), (3, None)],
          relations_idx = [((1, 2), ''x''), ((2, 4), ''y''), ((1, 3), ''x''), ((3, 4), ''y'')],
          trees_idx =
            [((1, 2), LineageTree SOURCES 2 (Some [(''y'', [leaf SOURCES 4])]) None),
             ((1, 3), LineageTree SOURCES 3 (Some [(''y'', [leaf SOURCES 4])]) None)],
          relations = [\<lparr>classifier = ''x'', source_id = 1, derived_id = 2\<rparr>,
                       \<lparr>classifier = ''y'', source_id = 2, derived_id = 4\<rparr>,
                       \<lparr>classifier = ''x'', source_id = 1, derived_id = 3\<rparr>,
                       \<lparr>classifier = ''y'', source_id = 3, derived_id = 4\<rparr>],
          by_source = [(1, [(2, ''x''), (3, ''x'')]), (2, [(4, ''y'')]), (3, [(4, ''y'')])],
          by_derived = [(2, [(1, ''x'')]), (4, [(2, ''y''), (3, ''y'')]), (3, [(1, ''x'')])],
          dataset_ids = {1, 2, 3, 4}\<rparr>"
  by code_simp

lemma diamond_extract_merge:
  "merge_relations empty_relations diamond_edges = Inr diamond_pool"
  "extract_tree diamond_pool 1 SOURCES None = Inr diamond_tree"
  "merge_tree empty_relations diamond_tree None 0 = Inl (InconsistentLineageException DuplicateSubtree)"
  by code_simp+

lemma increasing_acyclic:
  fixes E :: "(nat \<times> nat) set"
  assumes "\<forall>(a, b) \<in> E. a < b"
  shows "acyclic E"
proof (rule acyclicI, intro allI notI)
  fix x assume "(x, x) \<in> E\<^sup>+"
  moreover have "(a, b) \<in> E\<^sup>+ \<Longrightarrow> a < b" for a b
    by (induction rule: trancl_induct) (use assms in \<open>auto intro: less_trans\<close>)
  ultimately show False by blast
qed

lemma acyclic_not_cyclic_from: "acyclic E \<Longrightarrow> \<not> cyclic_from E x"
  by (auto simp: acyclic_def cyclic_from_def)

lemma extract_merge_reproduces:
  assumes ex: "extract_tree R root dir None = Inr t"
    and mg: "merge_tree empty_relations t None 0 = Inr s"
  shows "set (relations_idx s) = reach_edges R root dir"
    and "fst ` set (homes s) = reach_ids R root dir"
    and "\<forall>k \<in> reach_ids R root dir. map_of (homes s) k = Some (home_of R k)"
    and "wf_index s"
proof -
  have mir: "mirrors R dir t" using extract_mirrors(1)[OF ex] .
  have root: "dataset_id t = root" using extract_tree_root(1)[OF ex] .
  have node: "mirrors_node R dir n" if "n \<in> set (nodes t)" for n
    using mir that by (simp add: mirrors_def)
  have ids: "dataset_id ` set (nodes t) = reach_ids R root dir"
    using mir root by (simp add: mirrors_def)
  have node_edges_of: "set (node_edges n)
      = {(orient dir (dataset_id n, v), c) | v c.
           (v, c) \<in> set (get_or_empty (adjacency R dir) (dataset_id n))}"
    if "n \<in> set (nodes t)" for n
    using node[OF that] by (simp add: mirrors_node_def)
  from merge_tree_merged(1)[OF mg]
  have m: "merged empty_relations s (set (nodes t)) (edges_of (set (nodes t)))"
    by (simp only: visited_root_unbounded)
  have "set (relations_idx s) = edges_of (set (nodes t))"
    using m by (simp add: merged_def empty_relations_def)
  also have "\<dots> = reach_edges R root dir"
  proof
    show "edges_of (set (nodes t)) \<subseteq> reach_edges R root dir"
    proof
      fix e assume "e \<in> edges_of (set (nodes t))"
      then obtain n where n: "n \<in> set (nodes t)" "e \<in> set (node_edges n)"
        by (auto simp: edges_of_def)
      have "e \<in> {(orient dir (dataset_id n, v), c) | v c.
              (v, c) \<in> set (get_or_empty (adjacency R dir) (dataset_id n))}"
        using n(2) node_edges_of[OF n(1)] by simp
      then obtain v c where vc: "e = (orient dir (dataset_id n, v), c)"
        "(v, c) \<in> set (get_or_empty (adjacency R dir) (dataset_id n))"
        by auto
      have "dataset_id n \<in> dataset_id ` set (nodes t)" using n(1) by (rule imageI)
      then have "dataset_id n \<in> reach_ids R root dir" unfolding ids .
      with vc show "e \<in> reach_edges R root dir" unfolding reach_edges_def by auto
    qed
    show "reach_edges R root dir \<subseteq> edges_of (set (nodes t))"
    proof
      fix e assume "e \<in> reach_edges R root dir"
      then obtain u v c where e: "e = (orient dir (u, v), c)" "u \<in> reach_ids R root dir"
        "(v, c) \<in> set (get_or_empty (adjacency R dir) u)"
        unfolding reach_edges_def by auto
      from e(2) have "u \<in> dataset_id ` set (nodes t)" unfolding ids .
      then obtain n where n: "n \<in> set (nodes t)" "dataset_id n = u" by auto
      have "e \<in> {(orient dir (dataset_id n, v), c) | v c.
              (v, c) \<in> set (get_or_empty (adjacency R dir) (dataset_id n))}"
        using e n(2) by auto
      then have "e \<in> set (node_edges n)" using node_edges_of[OF n(1)] by simp
      then show "e \<in> edges_of (set (nodes t))" using n(1) by (auto simp: edges_of_def)
    qed
  qed
  finally show "set (relations_idx s) = reach_edges R root dir" .
  have hg: "homes_grow empty_relations s (set (nodes t))"
    using m by (simp add: merged_def)
  then show "fst ` set (homes s) = reach_ids R root dir"
    using ids by (simp add: homes_grow_def empty_relations_def)
  show "\<forall>k \<in> reach_ids R root dir. map_of (homes s) k = Some (home_of R k)"
  proof
    fix k assume "k \<in> reach_ids R root dir"
    then have k: "k \<in> dataset_id ` set (nodes t)" unfolding ids .
    have none: "map_of (homes (empty_relations :: 'a LineageRelations)) k = None"
      by (simp add: empty_relations_def)
    have "\<exists>n \<in> set (nodes t). dataset_id n = k \<and> map_of (homes s) k = Some (home n)"
      using hg none k by (simp add: homes_grow_def)
    then obtain n where n: "n \<in> set (nodes t)" "dataset_id n = k"
      "map_of (homes s) k = Some (home n)"
      by auto
    have "home n = home_of R (dataset_id n)" using node[OF n(1)] by (simp add: mirrors_node_def)
    then show "map_of (homes s) k = Some (home_of R k)"
      using n by simp
  qed
  show "wf_index s" using m by (simp add: merged_def wf_index_empty)
qed

lemma scenario_extracted:
  assumes "u1 \<noteq> u2" "merge_tree empty_relations (scenario_tree u1 u2) None 0 = Inr s"
  shows "extract_tree s u1 SOURCES None = Inr (scenario_tree u1 u2)"
  using assms unfolding merge_scenario_tree[OF assms(1)]
  by (auto simp: model_defs scenario_tree_def leaf_def)

section \<open>The adjacency indices hold the indexed relations\<close>

lemma wf_adjacency_empty: "wf_adjacency empty_relations"
  by (simp add: wf_adjacency_def empty_relations_def get_or_empty_def)

lemma wf_adjacencyD:
  assumes "wf_adjacency R"
  shows "(v, c) \<in> set (get_or_empty (by_source R) u) \<longleftrightarrow> ((u, v), c) \<in> set (relations_idx R)"
    and "(u, c) \<in> set (get_or_empty (by_derived R) v) \<longleftrightarrow> ((u, v), c) \<in> set (relations_idx R)"
  using assms unfolding wf_adjacency_def by blast+

lemma set_update_fresh: "k \<notin> fst ` set al \<Longrightarrow> set (AList.update k v al) = insert (k, v) (set al)"
  by (simp add: update_absent map_of_eq_None_iff[THEN iffD2])

lemma wf_adjacency_insert:
  assumes wf: "wf_adjacency S"
    and fresh: "map_of (relations_idx S) (source_id rel, derived_id rel) = None"
  shows "wf_adjacency (insert_relation S rel)"
proof -
  let ?s = "source_id rel" and ?d = "derived_id rel" and ?c = "classifier rel"
  have nokey: "(?s, ?d) \<notin> fst ` set (relations_idx S)"
    using fresh by (simp add: map_of_eq_None_iff)
  have idx: "set (relations_idx (insert_relation S rel)) = insert ((?s, ?d), ?c) (set (relations_idx S))"
    using fresh by (simp add: insert_relation_def update_absent)
  have d_new: "?d \<notin> fst ` set (get_or_empty (by_source S) ?s)"
  proof
    assume "?d \<in> fst ` set (get_or_empty (by_source S) ?s)"
    then obtain c where "(?d, c) \<in> set (get_or_empty (by_source S) ?s)" by auto
    then have "((?s, ?d), c) \<in> set (relations_idx S)" using wf_adjacencyD(1)[OF wf] by simp
    then have "(?s, ?d) \<in> fst ` set (relations_idx S)" by (rule image_eqI[rotated]) simp
    then show False using nokey by simp
  qed
  have s_new: "?s \<notin> fst ` set (get_or_empty (by_derived S) ?d)"
  proof
    assume "?s \<in> fst ` set (get_or_empty (by_derived S) ?d)"
    then obtain c where "(?s, c) \<in> set (get_or_empty (by_derived S) ?d)" by auto
    then have "((?s, ?d), c) \<in> set (relations_idx S)" using wf_adjacencyD(2)[OF wf] by simp
    then have "(?s, ?d) \<in> fst ` set (relations_idx S)" by (rule image_eqI[rotated]) simp
    then show False using nokey by simp
  qed
  have src: "set (get_or_empty (by_source (insert_relation S rel)) u)
      = (if u = ?s then insert (?d, ?c) (set (get_or_empty (by_source S) ?s))
         else set (get_or_empty (by_source S) u))" for u
    by (simp add: insert_relation_def get_or_empty_set_nested set_update_fresh[OF d_new])
  have der: "set (get_or_empty (by_derived (insert_relation S rel)) v)
      = (if v = ?d then insert (?s, ?c) (set (get_or_empty (by_derived S) ?d))
         else set (get_or_empty (by_derived S) v))" for v
    by (simp add: insert_relation_def get_or_empty_set_nested set_update_fresh[OF s_new])
  show ?thesis
    unfolding wf_adjacency_def
  proof (intro conjI allI)
    fix u v c
    show "(v, c) \<in> set (get_or_empty (by_source (insert_relation S rel)) u)
        \<longleftrightarrow> ((u, v), c) \<in> set (relations_idx (insert_relation S rel))"
      unfolding src idx using wf_adjacencyD(1)[OF wf, of v c u] by auto
    show "(u, c) \<in> set (get_or_empty (by_derived (insert_relation S rel)) v)
        \<longleftrightarrow> ((u, v), c) \<in> set (relations_idx (insert_relation S rel))"
      unfolding der idx using wf_adjacencyD(2)[OF wf, of u c v] by auto
  qed
qed

lemma wf_adjacency_cong:
  "by_source a = by_source b \<Longrightarrow> by_derived a = by_derived b \<Longrightarrow> relations_idx a = relations_idx b
   \<Longrightarrow> wf_adjacency a \<Longrightarrow> wf_adjacency b"
  by (simp add: wf_adjacency_def)

lemma wf_relations_empty: "wf_relations empty_relations"
  by (simp add: wf_relations_def wf_index_empty wf_adjacency_empty)

lemma wf_relations_home:
  assumes "wf_relations s" "merge_new_home s i h = Inr s'"
  shows "wf_relations s'"
proof -
  have "s' = s \<or> s' = s\<lparr>homes := AList.update i h (homes s)\<rparr>"
    using assms(2) by (auto simp: merge_new_home_def split: option.splits if_splits)
  then show ?thesis using assms(1) by (auto simp: wf_relations_def wf_index_def wf_adjacency_def)
qed

lemma wf_relations_node:
  assumes "wf_relations s" "merge_new_node s ids n = Inr s'"
  shows "wf_relations s'"
proof -
  have "s' = s \<or> s' = s\<lparr>trees_idx := AList.update ids n (trees_idx s)\<rparr>"
    using assms(2) by (auto simp: merge_new_node_def Let_def split: if_splits)
  then show ?thesis using assms(1) by (auto simp: wf_relations_def wf_index_def wf_adjacency_def)
qed

lemma wf_relations_relation:
  assumes "wf_relations s" "merge_new_lineage_relation s rel = Inr s'"
  shows "wf_relations s'"
proof -
  have wi: "wf_index s'" using assms wf_index_merge by (auto simp: wf_relations_def)
  from merge_new_lineage_relation_cases[OF assms(2)] have "wf_adjacency s'"
  proof
    assume "map_of (relations_idx s) (source_id rel, derived_id rel) = Some (classifier rel) \<and> s' = s"
    then show ?thesis using assms(1) by (simp add: wf_relations_def)
  next
    assume a: "map_of (relations_idx s) (source_id rel, derived_id rel) = None \<and>
      s' = insert_relation s rel\<lparr>dataset_ids := dataset_ids s \<union> {source_id rel, derived_id rel}\<rparr>"
    then have "wf_adjacency (insert_relation s rel)"
      using wf_adjacency_insert assms(1) by (auto simp: wf_relations_def)
    then show ?thesis using a by (simp add: wf_adjacency_def)
  qed
  with wi show ?thesis by (simp add: wf_relations_def)
qed

lemma wf_relations_merge_tree:
  "wf_relations self \<Longrightarrow> merge_tree self t p d = Inr s' \<Longrightarrow> wf_relations s'"
  "wf_relations self \<Longrightarrow> merge_tree_items self tree recurse nmd items = Inr s' \<Longrightarrow> wf_relations s'"
  "wf_relations self \<Longrightarrow> merge_tree_children self tree recurse nmd c chn = Inr s' \<Longrightarrow> wf_relations s'"
proof (induction self t p d and self tree recurse nmd items and self tree recurse nmd c chn
       arbitrary: s' and s' and s'
       rule: merge_tree_merge_tree_items_merge_tree_children.induct)
  case (1 self d i ch h parent_node max_depth)
  obtain b where b: "merge_tree_node self (LineageTree d i ch h) = Inr b"
    using "1.prems"(2) by (auto split: sum.splits)
  have wb: "wf_relations b"
    using wf_relations_home[OF "1.prems"(1) merge_tree_node_home[OF b]] .
  show ?case
  proof (cases ch)
    case None
    then show ?thesis using "1.prems"(2) b wb by simp
  next
    case (Some items)
    then have "merge_tree_items b (LineageTree d i ch h) (fst (recursion_behaviour parent_node max_depth))
        (snd (recursion_behaviour parent_node max_depth)) items = Inr s'"
      using "1.prems"(2) b by simp
    from "1.IH"[OF b Some wb this] show ?thesis .
  qed
next
  case (2 self tree recurse next_max_depth)
  then show ?case by simp
next
  case (3 self tree recurse next_max_depth c chn rest)
  obtain b where b: "merge_tree_children self tree recurse next_max_depth c chn = Inr b"
    and run: "merge_tree_items b tree recurse next_max_depth rest = Inr s'"
    using "3.prems"(2) by (auto split: sum.splits)
  from "3.IH"(2)[OF b "3.IH"(1)[OF "3.prems"(1) b] run] show ?case .
next
  case (4 self tree recurse next_max_depth c)
  then show ?case by simp
next
  case (5 self tree recurse next_max_depth c child rest)
  obtain b where b: "merge_tree_edge self tree c child = Inr b"
    using "5.prems"(2) by (auto split: sum.splits)
  obtain s1 where s1: "merge_new_relation self (edge_ids tree child) c = Inr s1"
    and s2: "merge_new_node s1 (edge_ids tree child) child = Inr b"
    using b by (auto simp: merge_tree_edge_def Let_def split: if_splits sum.splits)
  have wb: "wf_relations b"
    using wf_relations_node[OF wf_relations_relation[OF "5.prems"(1) s1[unfolded merge_new_relation_def]] s2] .
  show ?case
  proof (cases recurse)
    case True
    then obtain b' where b': "merge_tree b child (Some tree) next_max_depth = Inr b'"
      and run: "merge_tree_children b' tree recurse next_max_depth c rest = Inr s'"
      using "5.prems"(2) b by (auto split: sum.splits)
    from "5.IH"(2)[OF b True b' "5.IH"(1)[OF b True wb b'] run] show ?thesis .
  next
    case False
    then have run: "merge_tree_children b tree recurse next_max_depth c rest = Inr s'"
      using "5.prems"(2) b by simp
    from "5.IH"(3)[OF b False wb run] show ?thesis .
  qed
qed

lemma wf_relations_merge_homes:
  "wf_relations self \<Longrightarrow> merge_homes self hs = Inr s' \<Longrightarrow> wf_relations s'"
proof (induction self hs rule: merge_homes.induct)
  case (1 self)
  then show ?case by simp
next
  case (2 self dsid hm rest)
  then obtain a1 where a1: "merge_new_home self dsid hm = Inr a1" "merge_homes a1 rest = Inr s'"
    by (auto split: sum.splits)
  from "2.IH"[OF a1(1) wf_relations_home[OF "2.prems"(1) a1(1)] a1(2)] show ?case .
qed

lemma wf_relations_merge_relations:
  "wf_relations self \<Longrightarrow> merge_relations self rs = Inr s' \<Longrightarrow> wf_relations s'"
proof (induction self rs rule: merge_relations.induct)
  case (1 self)
  then show ?case by simp
next
  case (2 self ids c rest)
  then obtain a1 where a1: "merge_new_relation self ids c = Inr a1" "merge_relations a1 rest = Inr s'"
    by (auto split: sum.splits)
  from "2.IH"[OF a1(1) wf_relations_relation[OF "2.prems"(1) a1(1)[unfolded merge_new_relation_def]] a1(2)]
  show ?case .
qed

lemma wf_relations_merge_nodes:
  "wf_relations self \<Longrightarrow> merge_nodes self ns = Inr s' \<Longrightarrow> wf_relations s'"
proof (induction self ns rule: merge_nodes.induct)
  case (1 self)
  then show ?case by simp
next
  case (2 self ids node rest)
  then obtain a1 where a1: "merge_new_node self ids node = Inr a1" "merge_nodes a1 rest = Inr s'"
    by (auto split: sum.splits)
  from "2.IH"[OF a1(1) wf_relations_node[OF "2.prems"(1) a1(1)] a1(2)] show ?case .
qed

lemma wf_relations_merge:
  assumes "wf_relations self" "merge self pool = Inr s'"
  shows "wf_relations s'"
proof -
  obtain a b where a: "merge_homes self (homes pool) = Inr a"
    and b: "merge_relations a (relations_idx pool) = Inr b"
    and c: "merge_nodes b (trees_idx pool) = Inr s'"
    using assms(2) by (auto simp: merge_def split: sum.splits)
  from wf_relations_merge_nodes[OF wf_relations_merge_relations[OF wf_relations_merge_homes[OF assms(1) a] b] c]
  show ?thesis .
qed

lemma adj_edges_relations:
  assumes "wf_relations R"
  shows "adj_edges R SOURCES = edge_set R" and "adj_edges R DERIVED = (edge_set R)\<inverse>"
proof -
  have wa: "wf_adjacency R" and wi: "relations_idx R = map index_of (relations R)"
    using assms by (simp_all add: wf_relations_def wf_index_def)
  have keys: "fst ` set (relations_idx R) = edge_set R"
    unfolding wi by (simp add: edge_set_def index_of_def image_image)
  have "adj_edges R SOURCES = fst ` set (relations_idx R)"
  proof (rule set_eqI)
    fix e :: "'a \<times> 'a"
    obtain u v where e: "e = (u, v)" by (cases e)
    have "e \<in> adj_edges R SOURCES \<longleftrightarrow> (\<exists>c. (v, c) \<in> set (get_or_empty (by_source R) u))"
      unfolding e by (force simp: adj_edges_def adjacency_def)
    also have "\<dots> \<longleftrightarrow> (\<exists>c. ((u, v), c) \<in> set (relations_idx R))"
      using wf_adjacencyD(1)[OF wa] by simp
    also have "\<dots> \<longleftrightarrow> e \<in> fst ` set (relations_idx R)"
      unfolding e by force
    finally show "e \<in> adj_edges R SOURCES \<longleftrightarrow> e \<in> fst ` set (relations_idx R)" .
  qed
  then show "adj_edges R SOURCES = edge_set R" using keys by simp
  have "adj_edges R DERIVED = (fst ` set (relations_idx R))\<inverse>"
  proof (rule set_eqI)
    fix e :: "'a \<times> 'a"
    obtain u v where e: "e = (u, v)" by (cases e)
    have "e \<in> adj_edges R DERIVED \<longleftrightarrow> (\<exists>c. (v, c) \<in> set (get_or_empty (by_derived R) u))"
      unfolding e by (force simp: adj_edges_def adjacency_def)
    also have "\<dots> \<longleftrightarrow> (\<exists>c. ((v, u), c) \<in> set (relations_idx R))"
      using wf_adjacencyD(2)[OF wa] by simp
    also have "\<dots> \<longleftrightarrow> e \<in> (fst ` set (relations_idx R))\<inverse>"
      unfolding e by force
    finally show "e \<in> adj_edges R DERIVED \<longleftrightarrow> e \<in> (fst ` set (relations_idx R))\<inverse>" .
  qed
  then show "adj_edges R DERIVED = (edge_set R)\<inverse>" using keys by simp
qed

lemma acyclic_adj_edges:
  assumes "wf_relations R" "acyclic (edge_set R)"
  shows "acyclic (adj_edges R dir)"
  using assms adj_edges_relations[OF assms(1)]
  by (cases dir) (simp_all add: acyclic_converse)

lemma reach_edges_subset:
  assumes "wf_relations R"
  shows "reach_edges R root dir \<subseteq> set (relations_idx R)"
proof
  have wa: "wf_adjacency R" using assms by (simp add: wf_relations_def)
  fix e assume "e \<in> reach_edges R root dir"
  then obtain u v c where e: "e = (orient dir (u, v), c)"
    and vc: "(v, c) \<in> set (get_or_empty (adjacency R dir) u)"
    unfolding reach_edges_def by auto
  show "e \<in> set (relations_idx R)"
  proof (cases dir)
    case SOURCES
    then show ?thesis using e vc wf_adjacencyD(1)[OF wa, of v c u]
      by (simp add: orient_def adjacency_def)
  next
    case DERIVED
    then show ?thesis using e vc wf_adjacencyD(2)[OF wa, of v c u]
      by (simp add: orient_def adjacency_def)
  qed
qed

section \<open>When merge_tree accepts an extracted tree\<close>

lemma node_ids: "dataset_id ` set (nodes t) = insert (dataset_id t) (below_ids t)"
  by (subst nodes_subtrees) (auto simp: below_ids_def)

lemma sound_subtree: "sound t \<Longrightarrow> u \<in> set (subtrees t) \<Longrightarrow> sound u"
  unfolding sound_def by (subst (asm) nodes_subtrees) auto

lemma sound_root: "sound t \<Longrightarrow> dataset_id t \<notin> below_ids t"
  unfolding sound_def by (subst (asm) nodes_subtrees) auto

lemma soundI:
  assumes "dataset_id t \<notin> below_ids t" "\<And>u. u \<in> set (subtrees t) \<Longrightarrow> sound u"
  shows "sound t"
  unfolding sound_def using assms by (subst nodes_subtrees) (auto simp: sound_def)

lemma subtrees_Some: "subtrees (LineageTree d i (Some items) h) = concat (map snd items)"
  by (simp add: subtrees_def)

lemma child_datasets_sound:
  fixes t :: "'id LineageTree" and i :: 'id
  shows "sound t \<Longrightarrow> child_datasets t = Inr (below_ids t)"
  and "(\<forall>u \<in> set (concat (map snd items)). sound u \<and> i \<notin> dataset_id ` set (nodes u)) \<Longrightarrow>
     child_datasets_items i items acc
       = Inr (acc \<union> (\<Union>u \<in> set (concat (map snd items)). dataset_id ` set (nodes u)))"
  and "(\<forall>u \<in> set chn. sound u \<and> i \<notin> dataset_id ` set (nodes u)) \<Longrightarrow>
     child_datasets_children i chn acc = Inr (acc \<union> (\<Union>u \<in> set chn. dataset_id ` set (nodes u)))"
proof (induction t and i items acc and i chn acc
       rule: child_datasets_child_datasets_items_child_datasets_children.induct)
  case (1 d i ch h)
  show ?case
  proof (cases ch)
    case None
    then show ?thesis by (simp add: below_ids_def subtrees_def)
  next
    case (Some items)
    let ?t = "LineageTree d i (Some items) h"
    have sub: "\<forall>u \<in> set (concat (map snd items)). sound u \<and> i \<notin> dataset_id ` set (nodes u)"
    proof
      fix u assume u: "u \<in> set (concat (map snd items))"
      then have us: "u \<in> set (subtrees ?t)" by (simp add: subtrees_Some)
      have "sound u" using sound_subtree[OF _ us] "1.prems" Some by simp
      moreover have "i \<notin> below_ids ?t" using sound_root[of ?t] "1.prems" Some by simp
      then have "i \<notin> dataset_id ` set (nodes u)" using us unfolding below_ids_def by blast
      ultimately show "sound u \<and> i \<notin> dataset_id ` set (nodes u)" ..
    qed
    from "1.IH"[OF Some sub] show ?thesis
      using Some by (simp add: below_ids_def subtrees_Some)
  qed
next
  case (2 i child_dsids)
  then show ?case by simp
next
  case (3 i c chn rest child_dsids)
  have a: "\<forall>u \<in> set chn. sound u \<and> i \<notin> dataset_id ` set (nodes u)"
    using "3.prems" by simp
  have b: "\<forall>u \<in> set (concat (map snd rest)). sound u \<and> i \<notin> dataset_id ` set (nodes u)"
    using "3.prems" by simp
  note r1 = "3.IH"(1)[OF a]
  from "3.IH"(2)[OF r1 b] r1 show ?case by (simp add: Un_assoc)
next
  case (4 i child_dsids)
  then show ?case by simp
next
  case (5 i child rest child_dsids)
  have sc: "sound child" and ni: "i \<notin> dataset_id ` set (nodes child)"
    using "5.prems" by simp_all
  have rest: "\<forall>u \<in> set rest. sound u \<and> i \<notin> dataset_id ` set (nodes u)"
    using "5.prems" by simp
  note r1 = "5.IH"(1)[OF sc]
  have ins: "insert (dataset_id child) (below_ids child) = dataset_id ` set (nodes child)"
    by (simp add: node_ids)
  have ni': "i \<notin> insert (dataset_id child) (below_ids child)" using ni unfolding ins .
  from "5.IH"(2)[OF r1 refl ni' rest] r1 ni' show ?case
    by (simp add: Let_def ins Un_assoc del: insert_iff)
qed

lemma extract_sound:
  "extract_tree R x dir sf = Inr t \<Longrightarrow> dataset_id ` set (nodes t) \<inter> so_far_set sf = {} \<and> sound t"
  "extract_subtrees R dir B todo chn = Inr chn' \<Longrightarrow>
     \<forall>(d, c) \<in> set todo. \<forall>sub. extract_tree R d dir (Some B) = Inr sub \<longrightarrow>
        dataset_id ` set (nodes sub) \<inter> B = {} \<and> sound sub"
proof (induction R x dir sf and R dir B todo chn arbitrary: t and chn'
       rule: extract_tree_extract_subtrees.induct)
  case (1 self root dir so_far)
  let ?B = "insert root (so_far_set so_far)"
  let ?adj = "get_or_empty (adjacency self dir) root"
  have fresh: "root \<notin> so_far_set so_far"
    using "1.prems" by (auto split: if_splits)
  from extract_tree_root[OF "1.prems"] obtain chn where
    t: "dataset_id t = root" "children t = Some chn"
    and run: "extract_subtrees self dir ?B ?adj [] = Inr chn"
    by blast
  from extract_subtrees_entries[OF run]
  have ent: "entries chn = {(c, sub) | c sub d. (d, c) \<in> set ?adj \<and> extract_tree self d dir (Some ?B) = Inr sub}"
    by (simp add: entries_Nil del: extract_tree.simps)
  have sub: "dataset_id ` set (nodes u) \<inter> ?B = {} \<and> sound u" if "u \<in> set (subtrees t)" for u
  proof -
    from that obtain c where "(c, u) \<in> entries chn"
      unfolding subtrees_entries[OF t(2)] by auto
    then obtain d where "(d, c) \<in> set ?adj" "extract_tree self d dir (Some ?B) = Inr u"
      unfolding ent by blast
    then show ?thesis using "1.IH"[OF fresh run] by blast
  qed
  have below: "below_ids t \<inter> ?B = {}"
    unfolding below_ids_def using sub by blast
  have "sound t"
  proof (rule soundI)
    show "dataset_id t \<notin> below_ids t" using below t(1) by blast
    show "sound u" if "u \<in> set (subtrees t)" for u using sub[OF that] ..
  qed
  moreover have "dataset_id ` set (nodes t) \<inter> so_far_set so_far = {}"
    unfolding node_ids using below t(1) fresh by blast
  ultimately show ?case by simp
next
  case (2 self dir so_far chn)
  then show ?case by simp
next
  case (3 self dir so_far dsid c rest chn)
  obtain subtree where st: "extract_tree self dsid dir (Some so_far) = Inr subtree"
    and run: "extract_subtrees self dir so_far rest (add_child c subtree chn) = Inr chn'"
    using "3.prems" by (auto split: sum.splits simp del: extract_tree.simps)
  have "dataset_id ` set (nodes subtree) \<inter> so_far = {} \<and> sound subtree"
    using "3.IH"(1)[OF st] by (simp add: so_far_set_def)
  moreover note "3.IH"(2)[OF st run]
  ultimately show ?case using st by (auto simp del: extract_tree.simps)
qed

lemma adds_keys_Nil: "trees_idx b = trees_idx a \<Longrightarrow> adds_keys a b []"
  by (simp add: adds_keys_def)

lemma adds_keys_append: "adds_keys a b L \<Longrightarrow> adds_keys b c M \<Longrightarrow> adds_keys a c (L @ M)"
  unfolding adds_keys_def by auto

lemma merge_tree_node_trees: "merge_tree_node a t = Inr b \<Longrightarrow> trees_idx b = trees_idx a"
  using merge_tree_node_home[of a t b]
  by (auto simp: merge_new_home_def split: option.splits if_splits)

lemma merge_new_relation_trees: "merge_new_relation a ids c = Inr b \<Longrightarrow> trees_idx b = trees_idx a"
  using merge_new_lineage_relation_cases[of a "\<lparr>classifier = c, source_id = fst ids, derived_id = snd ids\<rparr>" b]
  by (auto simp: merge_new_relation_def insert_relation_def)

lemma map_of_None_keys: "map_of al k = None \<longleftrightarrow> k \<notin> fst ` set al"
  by (simp add: map_of_eq_None_iff)

lemma merge_new_node_keys:
  assumes "merge_new_node a ids n = Inr b"
  shows "adds_keys a b (if truthy_children (children n) then [ids] else [])"
proof (cases "truthy_children (children n)")
  case True
  then have none: "map_of (trees_idx a) ids = None"
    and b: "b = a\<lparr>trees_idx := AList.update ids n (trees_idx a)\<rparr>"
    using assms by (auto simp: merge_new_node_def split: if_splits)
  have "ids \<notin> fst ` set (trees_idx a)" using none by (simp add: map_of_eq_None_iff)
  moreover have "fst ` set (trees_idx b) = insert ids (fst ` set (trees_idx a))"
    unfolding b by (simp add: dom_update)
  ultimately show ?thesis using True by (simp add: adds_keys_def)
next
  case False
  then have "b = a" using assms by (simp add: merge_new_node_def)
  then show ?thesis using False by (simp add: adds_keys_def)
qed

lemma merge_tree_edge_keys:
  assumes "merge_tree_edge a t c child = Inr b"
  shows "adds_keys a b (if truthy_children (children child) then [edge_ids t child] else [])"
proof -
  obtain s1 where s1: "merge_new_relation a (edge_ids t child) c = Inr s1"
    and s2: "merge_new_node s1 (edge_ids t child) child = Inr b"
    using assms by (auto simp: merge_tree_edge_def Let_def split: if_splits sum.splits)
  have "adds_keys a s1 []" using merge_new_relation_trees[OF s1] by (rule adds_keys_Nil)
  from adds_keys_append[OF this merge_new_node_keys[OF s2]] show ?thesis by simp
qed

lemma recursion_unbounded: "recursion_behaviour p 0 = (True, 0)"
  by (simp add: recursion_behaviour_def)

lemma merge_tree_keys:
  "merge_tree self t p d = Inr s' \<Longrightarrow> d = 0 \<Longrightarrow> adds_keys self s' (detailed t)"
  "merge_tree_items self tree recurse nmd items = Inr s' \<Longrightarrow> recurse \<and> nmd = 0
     \<Longrightarrow> adds_keys self s' (detailed_items tree items)"
  "merge_tree_children self tree recurse nmd c chn = Inr s' \<Longrightarrow> recurse \<and> nmd = 0
     \<Longrightarrow> adds_keys self s' (detailed_children tree chn)"
proof (induction self t p d and self tree recurse nmd items and self tree recurse nmd c chn
       arbitrary: s' and s' and s'
       rule: merge_tree_merge_tree_items_merge_tree_children.induct)
  case (1 self d i ch h parent_node max_depth)
  obtain b where b: "merge_tree_node self (LineageTree d i ch h) = Inr b"
    using "1.prems"(1) by (auto split: sum.splits)
  have kb: "adds_keys self b []" using merge_tree_node_trees[OF b] by (rule adds_keys_Nil)
  show ?case
  proof (cases ch)
    case None
    then show ?thesis using "1.prems"(1) b kb by simp
  next
    case (Some items)
    then have run: "merge_tree_items b (LineageTree d i ch h) (fst (recursion_behaviour parent_node max_depth))
        (snd (recursion_behaviour parent_node max_depth)) items = Inr s'"
      using "1.prems"(1) b by simp
    have "fst (recursion_behaviour parent_node max_depth) \<and> snd (recursion_behaviour parent_node max_depth) = 0"
      using "1.prems"(2) by (simp add: recursion_unbounded)
    from adds_keys_append[OF kb "1.IH"[OF b Some run this]] show ?thesis using Some by simp
  qed
next
  case (2 self tree recurse next_max_depth)
  then show ?case by (simp add: adds_keys_Nil)
next
  case (3 self tree recurse next_max_depth c chn rest)
  obtain b where b: "merge_tree_children self tree recurse next_max_depth c chn = Inr b"
    and run: "merge_tree_items b tree recurse next_max_depth rest = Inr s'"
    using "3.prems"(1) by (auto split: sum.splits)
  from adds_keys_append[OF "3.IH"(1)[OF b "3.prems"(2)] "3.IH"(2)[OF b run "3.prems"(2)]]
  show ?case by simp
next
  case (4 self tree recurse next_max_depth c)
  then show ?case by (simp add: adds_keys_Nil)
next
  case (5 self tree recurse next_max_depth c child rest)
  have rec: recurse and nmd: "next_max_depth = 0" using "5.prems"(2) by simp_all
  obtain b where b: "merge_tree_edge self tree c child = Inr b"
    using "5.prems"(1) by (auto split: sum.splits)
  obtain b' where b': "merge_tree b child (Some tree) next_max_depth = Inr b'"
    and run: "merge_tree_children b' tree recurse next_max_depth c rest = Inr s'"
    using "5.prems"(1) b rec by (auto split: sum.splits)
  note k1 = merge_tree_edge_keys[OF b]
  note k2 = "5.IH"(1)[OF b rec b' nmd]
  note k3 = "5.IH"(2)[OF b rec b' run "5.prems"(2)]
  from adds_keys_append[OF k1 adds_keys_append[OF k2 k3]] show ?case by simp
qed

lemma edge_set_index: "wf_index P \<Longrightarrow> edge_set P = fst ` set (relations_idx P)"
  by (force simp: wf_index_def edge_set_def index_of_def)

lemma extract_within:
  assumes wf: "wf_relations P" and sub: "set (relations_idx P) \<subseteq> EC" and ac: "acyclic (fst ` EC)"
  shows "\<exists>t. extract_tree P x dir None = Inr t"
proof -
  have "edge_set P \<subseteq> fst ` EC"
    using edge_set_index[of P] wf sub by (auto simp: wf_relations_def)
  then have "acyclic (edge_set P)" by (rule acyclic_subset[OF ac])
  then have "\<not> cyclic_from (adj_edges P dir) x"
    using acyclic_not_cyclic_from[OF acyclic_adj_edges[OF wf]] by simp
  then show ?thesis unfolding extract_succeeds_iff .
qed

lemma agrees_home:
  assumes ag: "agrees EC H P" and hm: "hm = H k"
  shows "\<exists>P'. merge_new_home P k hm = Inr P' \<and> agrees EC H P'"
proof (cases "map_of (homes P) k")
  case None
  let ?P' = "P\<lparr>homes := AList.update k hm (homes P)\<rparr>"
  have run: "merge_new_home P k hm = Inr ?P'" using None by (simp add: merge_new_home_def)
  have "wf_relations ?P'" using wf_relations_home[OF _ run] ag by (simp add: agrees_def)
  moreover have "set (relations_idx ?P') \<subseteq> EC" using ag by (simp add: agrees_def)
  moreover have "\<forall>k' h. map_of (homes ?P') k' = Some h \<longrightarrow> h = H k'"
    using ag hm by (auto simp: agrees_def update_conv')
  ultimately have "agrees EC H ?P'" unfolding agrees_def by blast
  with run show ?thesis by blast
next
  case (Some stored)
  then have "stored = hm" using ag hm by (simp add: agrees_def)
  then have "merge_new_home P k hm = Inr P" using Some by (simp add: merge_new_home_def)
  with ag show ?thesis by blast
qed

lemma agrees_node:
  assumes ag: "agrees EC H P" and ac: "acyclic (fst ` EC)"
    and snd: "sound t" and hm: "home t = H (dataset_id t)"
  shows "\<exists>P'. merge_tree_node P t = Inr P' \<and> agrees EC H P'"
proof -
  obtain P' where P': "merge_new_home P (dataset_id t) (home t) = Inr P'" and ag': "agrees EC H P'"
    using agrees_home[OF ag hm] by blast
  have cd: "child_datasets t = Inr (below_ids t)" using child_datasets_sound(1)[OF snd] .
  obtain u where "extract_tree P' (dataset_id t) (opposite (direction t)) None = Inr u"
    using extract_within[OF _ _ ac, of P'] ag' unfolding agrees_def by blast
  then have "merge_tree_node P t = Inr P'"
    using cd P' by (simp add: merge_tree_node_def)
  with ag' show ?thesis by blast
qed

lemma agrees_relation:
  assumes ag: "agrees EC H P" and ac: "acyclic (fst ` EC)" and sv: "single_valued EC"
    and e: "(ids, c) \<in> EC"
  shows "\<exists>P'. merge_new_relation P ids c = Inr P' \<and> agrees EC H P'"
proof (cases "map_of (relations_idx P) ids")
  case (Some c')
  then have "(ids, c') \<in> set (relations_idx P)" by (rule map_of_SomeD)
  then have "(ids, c') \<in> EC" using ag unfolding agrees_def by blast
  then have "c' = c" using sv e by (auto dest: single_valuedD)
  then have "merge_new_relation P ids c = Inr P"
    using Some by (simp add: merge_new_relation_def merge_new_lineage_relation_def)
  with ag show ?thesis by blast
next
  case None
  let ?rel = "\<lparr>classifier = c, source_id = fst ids, derived_id = snd ids\<rparr>"
  let ?P1 = "insert_relation P ?rel"
  let ?P2 = "?P1\<lparr>dataset_ids := dataset_ids ?P1 \<union> {fst ids, snd ids}\<rparr>"
  have wf: "wf_relations P" using ag by (simp add: agrees_def)
  have none: "map_of (relations_idx P) (source_id ?rel, derived_id ?rel) = None"
    using None by simp
  have wf1: "wf_relations ?P1"
    using wf_index_insert[OF _ none] wf_adjacency_insert[OF _ none] wf
    by (simp add: wf_relations_def)
  have "relations_idx ?P1 = relations_idx P @ [(ids, c)]"
    using update_absent[OF None] by (simp add: insert_relation_def)
  then have sub1: "set (relations_idx ?P1) \<subseteq> EC"
    using ag e by (simp add: agrees_def)
  obtain t1 where t1: "extract_tree ?P1 (snd ids) SOURCES None = Inr t1"
    using extract_within[OF wf1 sub1 ac] by blast
  obtain t2 where t2: "extract_tree ?P1 (fst ids) DERIVED None = Inr t2"
    using extract_within[OF wf1 sub1 ac] by blast
  have run: "merge_new_lineage_relation P ?rel = Inr ?P2"
    using None t1 t2 by (simp add: merge_new_lineage_relation_def Let_def)
  have "wf_relations ?P2" using wf_relations_relation[OF wf run] .
  moreover have "set (relations_idx ?P2) \<subseteq> EC" using sub1 by simp
  moreover have "homes ?P2 = homes P" by (simp add: insert_relation_def)
  ultimately have "agrees EC H ?P2" using ag unfolding agrees_def by simp
  with run show ?thesis unfolding merge_new_relation_def by blast
qed

lemma agrees_new_node:
  assumes ag: "agrees EC H P"
    and fresh: "truthy_children (children n) \<longrightarrow> ids \<notin> fst ` set (trees_idx P)"
  shows "\<exists>P'. merge_new_node P ids n = Inr P' \<and> agrees EC H P'"
proof -
  have "truthy_children (children n) \<longrightarrow> map_of (trees_idx P) ids = None"
    using fresh by (simp add: map_of_eq_None_iff)
  then have "\<exists>P'. merge_new_node P ids n = Inr P'"
    by (cases "truthy_children (children n)") (simp_all add: merge_new_node_def)
  then obtain P' where run: "merge_new_node P ids n = Inr P'" ..
  have "wf_relations P'" using wf_relations_node[OF _ run] ag by (simp add: agrees_def)
  moreover have "relations_idx P' = relations_idx P" "homes P' = homes P"
    using run by (auto simp: merge_new_node_def split: if_splits)
  ultimately have "agrees EC H P'" using ag unfolding agrees_def by simp
  with run show ?thesis by blast
qed

lemma agrees_edge:
  assumes ag: "agrees EC H P" and ac: "acyclic (fst ` EC)" and sv: "single_valued EC"
    and dir: "direction child = direction tree"
    and e: "(edge_ids tree child, c) \<in> EC"
    and fresh: "truthy_children (children child) \<longrightarrow> edge_ids tree child \<notin> fst ` set (trees_idx P)"
  shows "\<exists>P'. merge_tree_edge P tree c child = Inr P' \<and> agrees EC H P'"
proof -
  obtain P1 where P1: "merge_new_relation P (edge_ids tree child) c = Inr P1" and ag1: "agrees EC H P1"
    using agrees_relation[OF ag ac sv e] by blast
  have "trees_idx P1 = trees_idx P" using merge_new_relation_trees[OF P1] .
  then have "truthy_children (children child) \<longrightarrow> edge_ids tree child \<notin> fst ` set (trees_idx P1)"
    using fresh by simp
  from agrees_new_node[OF ag1 this] obtain P' where
    P': "merge_new_node P1 (edge_ids tree child) child = Inr P'" and ag': "agrees EC H P'"
    by blast
  have "merge_tree_edge P tree c child = Inr P'"
    using dir P1 P' by (simp add: merge_tree_edge_def Let_def)
  with ag' show ?thesis by blast
qed

lemma root_in_nodes: "t \<in> set (nodes t)"
  by (subst nodes_subtrees) simp

lemma nodes_of_subtree: "u \<in> set (subtrees t) \<Longrightarrow> set (nodes u) \<subseteq> set (nodes t)"
  by (subst (2) nodes_subtrees) auto

lemma fits_subtree: "fits EC H t \<Longrightarrow> u \<in> set (subtrees t) \<Longrightarrow> fits EC H u"
  using nodes_of_subtree[of u t] unfolding fits_def by blast

lemma fits_children:
  assumes "sound t" "fits EC H t" "children t = Some items" "(c, ts) \<in> set items" "u \<in> set ts"
  shows "fits_child EC H t c u"
proof -
  have us: "u \<in> set (subtrees t)" using assms(3,4,5) by (force simp: subtrees_def)
  have root: "set (node_edges t) \<subseteq> EC" "\<forall>u \<in> set (subtrees t). direction u = direction t"
    using assms(2) root_in_nodes[of t] unfolding fits_def by blast+
  have "(c, u) \<in> entries items" using assms(4,5) by (auto simp: entries_def)
  then have "(edge_ids t u, c) \<in> set (node_edges t)"
    unfolding node_edges_entries[OF assms(3)] by force
  then have "(edge_ids t u, c) \<in> EC" using root(1) by blast
  moreover have "direction u = direction t" using root(2) us by blast
  moreover have "sound u" using sound_subtree[OF assms(1) us] .
  moreover have "fits EC H u" using fits_subtree[OF assms(2) us] .
  ultimately show ?thesis unfolding fits_child_def by blast
qed

lemma adds_keysD:
  "adds_keys a b L \<Longrightarrow> fst ` set (trees_idx b) = fst ` set (trees_idx a) \<union> set L"
  by (simp add: adds_keys_def)

lemma merge_tree_accepts:
  fixes EC :: "(('id \<times> 'id) \<times> string) set" and self :: "'id LineageRelations"
  assumes ac: "acyclic (fst ` EC)" and sv: "single_valued EC"
  shows "agrees EC H self \<Longrightarrow> sound t \<Longrightarrow> fits EC H t \<Longrightarrow> distinct (detailed t)
      \<Longrightarrow> fst ` set (trees_idx self) \<inter> set (detailed t) = {} \<Longrightarrow> d = 0
      \<Longrightarrow> \<exists>s'. merge_tree self t p d = Inr s' \<and> agrees EC H s'"
    and "agrees EC H self \<Longrightarrow> \<forall>(c', ts) \<in> set items. \<forall>u \<in> set ts. fits_child EC H tree c' u
      \<Longrightarrow> distinct (detailed_items tree items)
      \<Longrightarrow> fst ` set (trees_idx self) \<inter> set (detailed_items tree items) = {} \<Longrightarrow> recurse \<and> nmd = 0
      \<Longrightarrow> \<exists>s'. merge_tree_items self tree recurse nmd items = Inr s' \<and> agrees EC H s'"
    and "agrees EC H self \<Longrightarrow> \<forall>u \<in> set chn. fits_child EC H tree c u
      \<Longrightarrow> distinct (detailed_children tree chn)
      \<Longrightarrow> fst ` set (trees_idx self) \<inter> set (detailed_children tree chn) = {} \<Longrightarrow> recurse \<and> nmd = 0
      \<Longrightarrow> \<exists>s'. merge_tree_children self tree recurse nmd c chn = Inr s' \<and> agrees EC H s'"
proof (induction self t p d and self tree recurse nmd items and self tree recurse nmd c chn
       rule: merge_tree_merge_tree_items_merge_tree_children.induct)
  case (1 self d i ch h parent_node max_depth)
  let ?t = "LineageTree d i ch h"
  have hm: "home ?t = H (dataset_id ?t)"
    using "1.prems"(3) root_in_nodes[of ?t] unfolding fits_def by blast
  obtain b where b: "merge_tree_node self ?t = Inr b" and agb: "agrees EC H b"
    using agrees_node[OF "1.prems"(1) ac "1.prems"(2) hm] by blast
  have kb: "trees_idx b = trees_idx self" using merge_tree_node_trees[OF b] .
  show ?case
  proof (cases ch)
    case None
    then show ?thesis using b agb by simp
  next
    case (Some items)
    have ch: "children ?t = Some items" using Some by simp
    have fc: "\<forall>(c', ts) \<in> set items. \<forall>u \<in> set ts. fits_child EC H ?t c' u"
      using fits_children[OF "1.prems"(2,3) ch] by blast
    have di: "distinct (detailed_items ?t items)" using "1.prems"(4) Some by simp
    have dj: "fst ` set (trees_idx b) \<inter> set (detailed_items ?t items) = {}"
      using "1.prems"(5) Some kb by simp
    have rb: "fst (recursion_behaviour parent_node max_depth)
        \<and> snd (recursion_behaviour parent_node max_depth) = 0"
      using "1.prems"(6) by (simp add: recursion_unbounded)
    from "1.IH"[OF b Some agb fc di dj rb] show ?thesis using b Some by simp
  qed
next
  case (2 self tree recurse next_max_depth)
  then show ?case by simp
next
  case (3 self tree recurse next_max_depth c chn rest)
  have f1: "\<forall>u \<in> set chn. fits_child EC H tree c u"
    and f2: "\<forall>(c', ts) \<in> set rest. \<forall>u \<in> set ts. fits_child EC H tree c' u"
    using "3.prems"(2) by simp_all
  have d1: "distinct (detailed_children tree chn)" and d2: "distinct (detailed_items tree rest)"
    and d12: "set (detailed_children tree chn) \<inter> set (detailed_items tree rest) = {}"
    using "3.prems"(3) by simp_all
  have j1: "fst ` set (trees_idx self) \<inter> set (detailed_children tree chn) = {}"
    and j2: "fst ` set (trees_idx self) \<inter> set (detailed_items tree rest) = {}"
    using "3.prems"(4) by auto
  obtain b where b: "merge_tree_children self tree recurse next_max_depth c chn = Inr b"
    and agb: "agrees EC H b"
    using "3.IH"(1)[OF "3.prems"(1) f1 d1 j1 "3.prems"(5)] by blast
  have "fst ` set (trees_idx b) = fst ` set (trees_idx self) \<union> set (detailed_children tree chn)"
    using adds_keysD[OF merge_tree_keys(3)[OF b "3.prems"(5)]] .
  then have jb: "fst ` set (trees_idx b) \<inter> set (detailed_items tree rest) = {}"
    using j2 d12 by blast
  from "3.IH"(2)[OF b agb f2 d2 jb "3.prems"(5)] show ?case using b by simp
next
  case (4 self tree recurse next_max_depth c)
  then show ?case by simp
next
  case (5 self tree recurse next_max_depth c child rest)
  have rec: recurse and nmd: "next_max_depth = 0" using "5.prems"(5) by simp_all
  let ?e = "if truthy_children (children child) then [edge_ids tree child] else []"
  have fc: "fits_child EC H tree c child" and fr: "\<forall>u \<in> set rest. fits_child EC H tree c u"
    using "5.prems"(2) by simp_all
  have de: "distinct (detailed child)" and dr: "distinct (detailed_children tree rest)"
    and e_c: "set ?e \<inter> set (detailed child) = {}"
    and e_r: "set ?e \<inter> set (detailed_children tree rest) = {}"
    and c_r: "set (detailed child) \<inter> set (detailed_children tree rest) = {}"
    using "5.prems"(3) by auto
  have j_e: "fst ` set (trees_idx self) \<inter> set ?e = {}"
    and j_c: "fst ` set (trees_idx self) \<inter> set (detailed child) = {}"
    and j_r: "fst ` set (trees_idx self) \<inter> set (detailed_children tree rest) = {}"
    using "5.prems"(4) by auto
  have fresh: "truthy_children (children child) \<longrightarrow> edge_ids tree child \<notin> fst ` set (trees_idx self)"
    using j_e by auto
  obtain b where b: "merge_tree_edge self tree c child = Inr b" and agb: "agrees EC H b"
    using agrees_edge[OF "5.prems"(1) ac sv _ _ fresh, of c] fc unfolding fits_child_def by blast
  have kb: "fst ` set (trees_idx b) = fst ` set (trees_idx self) \<union> set ?e"
    using adds_keysD[OF merge_tree_edge_keys[OF b]] .
  have jb: "fst ` set (trees_idx b) \<inter> set (detailed child) = {}"
    unfolding kb using j_c e_c by blast
  have sc: "sound child" and fitc: "fits EC H child" using fc unfolding fits_child_def by blast+
  obtain b' where b': "merge_tree b child (Some tree) next_max_depth = Inr b'"
    and agb': "agrees EC H b'"
    using "5.IH"(1)[OF b rec agb sc fitc de jb nmd] by blast
  have kb': "fst ` set (trees_idx b') = fst ` set (trees_idx b) \<union> set (detailed child)"
    using adds_keysD[OF merge_tree_keys(1)[OF b' nmd]] .
  have jb': "fst ` set (trees_idx b') \<inter> set (detailed_children tree rest) = {}"
    unfolding kb' kb using j_r e_r c_r by blast
  from "5.IH"(2)[OF b rec b' agb' fr dr jb' "5.prems"(5)] show ?case using b b' rec by simp
qed

lemma reach_edges_acyclic:
  assumes "\<not> cyclic_from (adj_edges R dir) root"
  shows "acyclic (fst ` reach_edges R root dir)"
proof -
  let ?A = "adj_edges R dir"
  let ?G = "{(u, v). u \<in> reach_ids R root dir \<and> (u, v) \<in> ?A}"
  have sub: "?G \<subseteq> ?A" by blast
  have acG: "acyclic ?G"
  proof (rule acyclicI, intro allI notI)
    fix y assume cyc: "(y, y) \<in> ?G\<^sup>+"
    then obtain z where "(y, z) \<in> ?G" by (auto dest: tranclD)
    then have "(root, y) \<in> ?A\<^sup>*" by (simp add: reach_ids_def)
    moreover have "(y, y) \<in> ?A\<^sup>+" using trancl_mono[OF cyc sub] .
    ultimately show False using assms unfolding cyclic_from_def by blast
  qed
  have eq: "fst ` reach_edges R root dir = (if dir = SOURCES then ?G else ?G\<inverse>)"
    unfolding reach_edges_def orient_def adj_edges_iff by force
  show ?thesis
  proof (cases "dir = SOURCES")
    case True
    show ?thesis unfolding eq if_P[OF True] by (rule acG)
  next
    case False
    show ?thesis unfolding eq if_not_P[OF False] acyclic_converse by (rule acG)
  qed
qed

lemma index_single_valued:
  assumes "wf_index R"
  shows "single_valued (set (relations_idx R))"
proof -
  have idx: "relations_idx R = map index_of (relations R)"
    and dist: "distinct (map (\<lambda>r. (source_id r, derived_id r)) (relations R))"
    using assms by (simp_all add: wf_index_def)
  have "fst \<circ> index_of = (\<lambda>r :: 'a LineageRelation. (source_id r, derived_id r))"
    by (rule ext) (simp add: index_of_def)
  then have "map fst (relations_idx R) = map (\<lambda>r. (source_id r, derived_id r)) (relations R)"
    unfolding idx by simp
  then have "distinct (map fst (relations_idx R))" using dist by (simp only:)
  then show ?thesis
    unfolding single_valued_def by (metis eq_key_imp_eq_value)
qed

lemma extract_fits:
  assumes ex: "extract_tree R root dir None = Inr t"
  shows "fits (reach_edges R root dir) (home_of R) t"
proof -
  have mir: "mirrors R dir t" using extract_mirrors(1)[OF ex] .
  have root: "dataset_id t = root" using extract_tree_root(1)[OF ex] .
  have ids: "dataset_id ` set (nodes t) = reach_ids R root dir"
    using mir root by (simp add: mirrors_def)
  have node: "home n = home_of R (dataset_id n) \<and> set (node_edges n) \<subseteq> reach_edges R root dir
      \<and> (\<forall>u \<in> set (subtrees n). direction u = direction n)"
    if n: "n \<in> set (nodes t)" for n
  proof -
    have mn: "mirrors_node R dir n" using mir n by (simp add: mirrors_def)
    have "dataset_id n \<in> dataset_id ` set (nodes t)" using n by (rule imageI)
    then have reach: "dataset_id n \<in> reach_ids R root dir" unfolding ids .
    have "set (node_edges n) \<subseteq> reach_edges R root dir"
      using mn reach unfolding mirrors_node_def reach_edges_def by auto
    moreover have "direction u = direction n" if "u \<in> set (subtrees n)" for u
    proof -
      have "u \<in> set (nodes n)" using that root_in_nodes[of u] nodes_of_subtree[OF that] by blast
      moreover have "set (nodes n) \<subseteq> set (nodes t)" using n
      proof (induction t rule: nodes.induct)
        case (1 d i ch h)
        show ?case
        proof (cases "n = LineageTree d i ch h")
          case True
          then show ?thesis by simp
        next
          case False
          then obtain items c ts v where ch: "ch = Some items" and it: "(c, ts) \<in> set items"
            and v: "v \<in> set ts" and nv: "n \<in> set (nodes v)"
            using "1.prems" by (auto split: option.splits)
          from "1.IH"[OF ch it _ v nv] have "set (nodes n) \<subseteq> set (nodes v)" by simp
          then show ?thesis using ch it v by auto
        qed
      qed
      ultimately have "u \<in> set (nodes t)" by blast
      then have "mirrors_node R dir u" using mir by (simp add: mirrors_def)
      then show ?thesis using mn by (simp add: mirrors_node_def)
    qed
    ultimately show ?thesis using mn by (simp add: mirrors_node_def)
  qed
  then show ?thesis unfolding fits_def by blast
qed

lemma agrees_empty: "agrees EC H empty_relations"
  unfolding agrees_def using wf_relations_empty by (simp add: empty_relations_def)

lemma round_trip_accepted:
  assumes wf: "wf_relations R" and ex: "extract_tree R root dir None = Inr t"
  shows "(\<exists>s. merge_tree empty_relations t None 0 = Inr s) \<longleftrightarrow> distinct (detailed t)"
proof
  assume "\<exists>s. merge_tree empty_relations t None 0 = Inr s"
  then obtain s where "merge_tree empty_relations t None 0 = Inr s" ..
  from merge_tree_keys(1)[OF this refl] show "distinct (detailed t)"
    by (simp add: adds_keys_def)
next
  assume dt: "distinct (detailed t)"
  let ?EC = "reach_edges R root dir"
  have "\<not> cyclic_from (adj_edges R dir) root"
    using ex extract_succeeds_iff[of R root dir] by blast
  then have ac: "acyclic (fst ` ?EC)" by (rule reach_edges_acyclic)
  have "wf_index R" using wf by (simp add: wf_relations_def)
  then have "single_valued (set (relations_idx R))" by (rule index_single_valued)
  then have sv: "single_valued ?EC"
    using reach_edges_subset[OF wf, of root dir] by (rule single_valued_subset[rotated])
  have snd: "sound t" using extract_sound(1)[OF ex] by simp
  have fit: "fits ?EC (home_of R) t" using extract_fits[OF ex] .
  have none: "fst ` set (trees_idx (empty_relations :: 'a LineageRelations)) \<inter> set (detailed t) = {}"
    by (simp add: empty_relations_def)
  from merge_tree_accepts(1)[OF ac sv agrees_empty snd fit dt none refl]
  show "\<exists>s. merge_tree empty_relations t None 0 = Inr s" by blast
qed

section \<open>Extraction and the recorded relations\<close>

lemma walk_adj_edges: "wf_relations R \<Longrightarrow> walk True R dir = adj_edges R dir"
  by (cases dir) (simp_all add: walk_def adj_edges_relations)

lemma reached_reach_ids: "wf_relations R \<Longrightarrow> reached True R root dir = reach_ids R root dir"
  by (simp add: reached_def reach_ids_def walk_adj_edges)

lemma met_reach_edges:
  assumes wf: "wf_relations R"
  shows "met True R root dir = reach_edges R root dir"
proof -
  have wa: "wf_adjacency R" using wf by (simp add: wf_relations_def)
  note rr = reached_reach_ids[OF wf, of root dir]
  show ?thesis
  proof (cases dir)
    case SOURCES
    have "reach_edges R root dir
        = {((u, v), c) | u v c. u \<in> reach_ids R root dir \<and> ((u, v), c) \<in> set (relations_idx R)}"
      unfolding reach_edges_def using SOURCES wf_adjacencyD(1)[OF wa]
      by (simp add: orient_def adjacency_def)
    also have "\<dots> = met True R root dir"
      unfolding met_def rr using SOURCES by (auto simp: leaves_from_def)
    finally show ?thesis by simp
  next
    case DERIVED
    have "reach_edges R root dir
        = {((v, u), c) | u v c. u \<in> reach_ids R root dir \<and> ((v, u), c) \<in> set (relations_idx R)}"
      unfolding reach_edges_def using DERIVED wf_adjacencyD(2)[OF wa]
      by (simp add: orient_def adjacency_def)
    also have "\<dots> = met True R root dir"
      unfolding met_def rr using DERIVED by (auto simp: leaves_from_def)
    finally show ?thesis by simp
  qed
qed

lemma extract_raises_walk:
  assumes wf: "wf_relations self"
  shows "extract_tree self root dir None = Inl (InconsistentLineageException CyclicGraph)
      \<longleftrightarrow> (\<exists>p. path_from (walk True self dir) root p \<and> \<not> distinct (root # p))"
proof -
  have kind: "e = InconsistentLineageException CyclicGraph"
    if "extract_tree self root dir None = Inl e" for e
    using that by (rule extract_error_kind)
  have "isl (extract_tree self root dir None)
      \<longleftrightarrow> (\<exists>p. path_from (adj_edges self dir) root p \<and> \<not> distinct (root # p))"
    unfolding extract_raises_iff by (simp add: blocked_def so_far_set_def)
  moreover have "isl (extract_tree self root dir None)
      \<longleftrightarrow> extract_tree self root dir None = Inl (InconsistentLineageException CyclicGraph)"
    using kind by (cases "extract_tree self root dir None") auto
  ultimately show ?thesis unfolding walk_adj_edges[OF wf] by simp
qed

lemma round_trip_reached:
  assumes wf: "wf_relations R"
    and ex: "extract_tree R root dir None = Inr t"
    and mg: "merge_tree empty_relations t None 0 = Inr s"
  shows "set (relations_idx s) = met True R root dir"
    and "fst ` set (homes s) = reached True R root dir"
    and "\<forall>k \<in> reached True R root dir. map_of (homes s) k = Some (home_of R k)"
    and "wf_relations s"
  unfolding met_reach_edges[OF wf] reached_reach_ids[OF wf]
  using extract_merge_reproduces(1,2,3)[OF ex mg] wf_relations_merge_tree(1)[OF wf_relations_empty mg]
  by blast+

lemma acyclic_extracts:
  assumes wf: "wf_relations R" and ac: "acyclic (edge_set R)"
  shows "\<exists>t. extract_tree R root dir None = Inr t"
proof -
  have "\<not> cyclic_from (adj_edges R dir) root"
    using acyclic_not_cyclic_from[OF acyclic_adj_edges[OF wf ac]] by simp
  then show ?thesis unfolding extract_succeeds_iff .
qed

section \<open>Claims\<close>

text \<open>
  C1 (acyclicity after every successful operation). \<open>merge_new_lineage_relation\<close> looks for
  a cycle only when one of the two ids of a new relation is already in \<open>dataset_ids\<close>. A
  relation from a fresh id to itself is therefore accepted: merging \<open>(c, a, a)\<close> into the
  empty collection succeeds, and the edge set of the result has the one-hop cycle
  \<open>a \<rightarrow> a\<close>.
\<close>

theorem self_loop_accepted:
  "merge_new_lineage_relation empty_relations \<lparr>classifier = c, source_id = a, derived_id = a\<rparr>
     = Inr (holding c a a)
   \<and> (a, a) \<in> edge_set (holding c a a)
   \<and> \<not> acyclic (edge_set (holding c a a))"
proof -
  have "(a, a) \<in> edge_set (holding c a a)"
    by (simp add: edge_set_def holding_def)
  moreover from this have "\<not> acyclic (edge_set (holding c a a))"
    by (auto simp: acyclic_def)
  ultimately show ?thesis
    by (simp add: holding_built)
qed

text \<open>
  C2 (the U1/U2 scenario), as stated: one relation \<open>(nbar, source U2, derived U1)\<close> and no
  home. The code gives neither: for U1 = 1, U2 = 2 the merge succeeds with the one relation
  \<open>(nbar, source 1, derived 2)\<close> and a null home for 1 and for 2.
\<close>

theorem scenario_as_stated_fails:
  "map_sum id relations (merge_tree empty_relations (scenario_tree (1::nat) 2) None 0)
     = Inr [\<lparr>classifier = ''nbar'', source_id = 1, derived_id = 2\<rparr>]
   \<and> map_sum id relations (merge_tree empty_relations (scenario_tree (1::nat) 2) None 0)
     \<noteq> Inr [\<lparr>classifier = ''nbar'', source_id = 2, derived_id = 1\<rparr>]
   \<and> map_sum id homes (merge_tree empty_relations (scenario_tree (1::nat) 2) None 0)
     = Inr [(1, None), (2, None)]
   \<and> map_sum id homes (merge_tree empty_relations (scenario_tree (1::nat) 2) None 0) \<noteq> Inr []"
  by (simp add: merge_scenario_tree)

text \<open>
  C2, amended: for distinct U1 and U2 the merge succeeds and records exactly one relation,
  with classifier nbar, between U1 and U2, and a homes mapping that holds a null home for
  U1 and for U2 and nothing else.
\<close>

theorem scenario_merge:
  "u1 \<noteq> u2 \<Longrightarrow>
   \<exists>s r. merge_tree empty_relations (scenario_tree u1 u2) None 0 = Inr s
     \<and> relations s = [r] \<and> classifier r = ''nbar''
     \<and> {source_id r, derived_id r} = {u1, u2}
     \<and> homes s = [(u1, None), (u2, None)]"
  by (simp add: merge_scenario_tree)

theorem scenario_merge_witness:
  "(1::nat) \<noteq> 2 \<and>
   (\<exists>s r. merge_tree empty_relations (scenario_tree (1::nat) 2) None 0 = Inr s
     \<and> relations s = [r] \<and> classifier r = ''nbar''
     \<and> {source_id r, derived_id r} = {1, 2}
     \<and> homes s = [(1, None), (2, None)])"
  using scenario_merge[of "1::nat" 2] by simp

text \<open>
  C5 (classifier determinism). Merging \<open>(a, b, x)\<close> into the empty collection succeeds. In
  any collection, once \<open>(a, b, x)\<close> has been merged, merging \<open>(a, b, y)\<close> with another
  classifier raises the inconsistent-classifier exception and merging \<open>(a, b, x)\<close> again
  succeeds and changes nothing; and when the index of the collection lists its relations
  (as it does in the empty collection and after every merge), the collection then holds
  exactly one relation for the pair \<open>(a, b)\<close>.
\<close>

theorem classifier_determinism:
  "merge_new_lineage_relation empty_relations \<lparr>classifier = x, source_id = a, derived_id = b\<rparr>
     = Inr (holding x a b)
   \<and> (merge_new_lineage_relation self \<lparr>classifier = x, source_id = a, derived_id = b\<rparr> = Inr s1 \<longrightarrow>
        (y \<noteq> x \<longrightarrow>
            merge_new_lineage_relation s1 \<lparr>classifier = y, source_id = a, derived_id = b\<rparr>
              = Inl (InconsistentLineageException InconsistentClassifier))
      \<and> merge_new_lineage_relation s1 \<lparr>classifier = x, source_id = a, derived_id = b\<rparr> = Inr s1
      \<and> (wf_index self \<longrightarrow>
            wf_index s1
          \<and> filter (\<lambda>r. source_id r = a \<and> derived_id r = b) (relations s1)
              = [\<lparr>classifier = x, source_id = a, derived_id = b\<rparr>]))"
proof (intro conjI impI)
  show "merge_new_lineage_relation empty_relations \<lparr>classifier = x, source_id = a, derived_id = b\<rparr>
     = Inr (holding x a b)"
    by (rule holding_built)
next
  assume first: "merge_new_lineage_relation self \<lparr>classifier = x, source_id = a, derived_id = b\<rparr> = Inr s1"
  have idx: "map_of (relations_idx s1) (a, b) = Some x"
    using idx_after_merge[OF first] by simp
  show "merge_new_lineage_relation s1 \<lparr>classifier = y, source_id = a, derived_id = b\<rparr>
          = Inl (InconsistentLineageException InconsistentClassifier)" if "y \<noteq> x"
    using idx that by (simp add: merge_new_lineage_relation_def)
  show "merge_new_lineage_relation s1 \<lparr>classifier = x, source_id = a, derived_id = b\<rparr> = Inr s1"
    using idx by (simp add: merge_new_lineage_relation_def)
  assume "wf_index self"
  then show wf: "wf_index s1"
    using first by (rule wf_index_merge)
  show "filter (\<lambda>r. source_id r = a \<and> derived_id r = b) (relations s1)
          = [\<lparr>classifier = x, source_id = a, derived_id = b\<rparr>]"
    using wf idx by (rule wf_index_filter)
qed

theorem classifier_determinism_witness:
  "wf_index (empty_relations :: nat LineageRelations)
   \<and> merge_new_lineage_relation empty_relations \<lparr>classifier = ''x'', source_id = 1::nat, derived_id = 2\<rparr>
       = Inr (holding ''x'' 1 2)
   \<and> merge_new_lineage_relation (holding ''x'' (1::nat) 2) \<lparr>classifier = ''y'', source_id = 1, derived_id = 2\<rparr>
       = Inl (InconsistentLineageException InconsistentClassifier)
   \<and> merge_new_lineage_relation (holding ''x'' (1::nat) 2) \<lparr>classifier = ''x'', source_id = 1, derived_id = 2\<rparr>
       = Inr (holding ''x'' 1 2)
   \<and> filter (\<lambda>r. source_id r = 1 \<and> derived_id r = 2) (relations (holding ''x'' (1::nat) 2))
       = [\<lparr>classifier = ''x'', source_id = 1, derived_id = 2\<rparr>]"
proof -
  note inst = classifier_determinism[of "''x''" "1::nat" 2 empty_relations "holding ''x'' 1 2" "''y''"]
  note first = inst[THEN conjunct1]
  note rest = inst[THEN conjunct2, THEN mp, OF first]
  have ne: "''y'' \<noteq> ''x''" by simp
  note raises = rest[THEN conjunct1, THEN mp, OF ne]
  note again = rest[THEN conjunct2, THEN conjunct1]
  note one = rest[THEN conjunct2, THEN conjunct2, THEN mp, OF wf_index_empty, THEN conjunct2]
  show ?thesis
    by (rule conjI[OF wf_index_empty conjI[OF first conjI[OF raises conjI[OF again one]]]])
qed

text \<open>
  C6 (diff against a collection that holds the same pair under another classifier). With
  \<open>allow_updates = False\<close> the call raises, as claimed. With \<open>allow_updates = True\<close> the
  claim expects \<open>(a, b, x)\<close> among the relations to update; the code raises \<open>TypeError\<close> in
  its loop over \<open>self._relations_idx\<close>.
\<close>

theorem diff_allow_updates_raises:
  "relations_diff (holding ''x'' a b) (Some (holding ''y'' a b)) True = Inl TypeError
   \<and> relations_diff (holding ''x'' a b) (Some (holding ''y'' a b)) False
         = Inl (InconsistentLineageException InconsistentClassifier)"
  by (simp add: model_defs holding_def)

text \<open>
  C7 (diff against nothing persisted). Without an existing collection everything is
  returned as to add. Against an existing collection that is empty the claim expects the
  same; the code takes the main path, the merge check passes, and the loop over
  \<open>self._relations_idx\<close> raises \<open>TypeError\<close>.
\<close>

theorem diff_against_empty_raises:
  "relations_diff (holding x a b) (Some empty_relations) False = Inl TypeError
   \<and> relations_diff (holding x a b) None False
       = Inr ([\<lparr>classifier = x, source_id = a, derived_id = b\<rparr>], [], [], [])"
  by (simp add: model_defs holding_def)

text \<open>
  C9 (path-sensitivity of extraction). In a collection whose indices are in step (the empty
  collection is, and every successful \<open>merge_new_home\<close>, \<open>merge_new_lineage_relation\<close>,
  \<open>merge_tree\<close> and \<open>merge\<close> keeps it so), \<open>extract_tree\<close> raises the cyclic-lineage exception
  exactly when some walk along the recorded relations that starts at the root repeats an
  id. The two directions walk the relations in opposite senses; which of the two belongs
  to SOURCES is not part of the claim and is left open. In any collection \<open>extract_tree\<close>
  raises nothing else, and every tree it returns has a children mapping at every node.
  After the merge of the diamond tree (4 is a child of 2 and of 3, both children of 1) the
  extraction from 1 succeeds with 4 on both branches.
\<close>

theorem extract_tree_path_sensitive:
  "(\<exists>fwd. \<forall>(self :: 'id LineageRelations) root dir.
       wf_relations self \<longrightarrow>
         (extract_tree self root dir None = Inl (InconsistentLineageException CyclicGraph)
            \<longleftrightarrow> (\<exists>p. path_from (walk fwd self dir) root p \<and> \<not> distinct (root # p))))
   \<and> (\<forall>e. extract_tree self root dir None = Inl e \<longrightarrow> e = InconsistentLineageException CyclicGraph)
   \<and> (\<forall>t. extract_tree self root dir None = Inr t \<longrightarrow> expanded t)
   \<and> (\<exists>s. merge_tree empty_relations square_tree None 0 = Inr s
          \<and> extract_tree s 1 SOURCES None = Inr square_tree)
   \<and> wf_relations (empty_relations :: 'id LineageRelations)
   \<and> (wf_relations self \<longrightarrow>
         (merge_new_home self k hm = Inr s1 \<longrightarrow> wf_relations s1)
       \<and> (merge_new_lineage_relation self rel = Inr s2 \<longrightarrow> wf_relations s2)
       \<and> (merge_tree self t p d = Inr s3 \<longrightarrow> wf_relations s3)
       \<and> (merge self pool = Inr s4 \<longrightarrow> wf_relations s4))"
proof -
  have "\<forall>(self :: 'id LineageRelations) root dir.
       wf_relations self \<longrightarrow>
         (extract_tree self root dir None = Inl (InconsistentLineageException CyclicGraph)
            \<longleftrightarrow> (\<exists>p. path_from (walk True self dir) root p \<and> \<not> distinct (root # p)))"
    by (intro allI impI) (rule extract_raises_walk)
  then have raises: "\<exists>fwd. \<forall>(self :: 'id LineageRelations) root dir.
       wf_relations self \<longrightarrow>
         (extract_tree self root dir None = Inl (InconsistentLineageException CyclicGraph)
            \<longleftrightarrow> (\<exists>p. path_from (walk fwd self dir) root p \<and> \<not> distinct (root # p)))"
    by (rule exI)
  have only: "\<forall>e. extract_tree self root dir None = Inl e \<longrightarrow> e = InconsistentLineageException CyclicGraph"
    by (intro allI impI) (rule extract_error_kind(1))
  have full: "\<forall>t. extract_tree self root dir None = Inr t \<longrightarrow> expanded t"
    by (intro allI impI) (rule extract_expanded(1))
  have "extract_tree \<lparr>homes = [(1, None), (2, None), (4, None), (3, None)],
          relations_idx = [((1, 2), ''x''), ((2, 4), ''y''), ((1, 3), ''x''), ((3, 4), ''y'')],
          trees_idx =
            [((1, 2), LineageTree SOURCES 2 (Some [(''y'', [leaf SOURCES 4])]) None),
             ((1, 3), LineageTree SOURCES 3 (Some [(''y'', [leaf SOURCES 4])]) None)],
          relations = [\<lparr>classifier = ''x'', source_id = 1, derived_id = 2\<rparr>,
                       \<lparr>classifier = ''y'', source_id = 2, derived_id = 4\<rparr>,
                       \<lparr>classifier = ''x'', source_id = 1, derived_id = 3\<rparr>,
                       \<lparr>classifier = ''y'', source_id = 3, derived_id = 4\<rparr>],
          by_source = [(1, [(2, ''x''), (3, ''x'')]), (2, [(4, ''y'')]), (3, [(4, ''y'')])],
          by_derived = [(2, [(1, ''x'')]), (4, [(2, ''y''), (3, ''y'')]), (3, [(1, ''x'')])],
          dataset_ids = {1, 2, 3, 4}\<rparr> 1 SOURCES None = Inr square_tree"
    by code_simp
  then have diamond: "\<exists>s. merge_tree empty_relations square_tree None 0 = Inr s
          \<and> extract_tree s 1 SOURCES None = Inr square_tree"
    using square_merged by simp
  have inv: "wf_relations self \<longrightarrow>
         (merge_new_home self k hm = Inr s1 \<longrightarrow> wf_relations s1)
       \<and> (merge_new_lineage_relation self rel = Inr s2 \<longrightarrow> wf_relations s2)
       \<and> (merge_tree self t p d = Inr s3 \<longrightarrow> wf_relations s3)
       \<and> (merge self pool = Inr s4 \<longrightarrow> wf_relations s4)"
    using wf_relations_home[of self k hm s1] wf_relations_relation[of self rel s2]
      wf_relations_merge_tree(1)[of self t p d s3] wf_relations_merge[of self pool s4]
    by (intro impI conjI)
  show ?thesis
    by (rule conjI[OF raises conjI[OF only conjI[OF full conjI[OF diamond conjI[OF wf_relations_empty inv]]]]])
qed

theorem extract_tree_path_sensitive_witness:
  "wf_relations (empty_relations :: nat LineageRelations)
   \<and> merge_new_lineage_relation empty_relations \<lparr>classifier = ''x'', source_id = 1::nat, derived_id = 1\<rparr>
       = Inr (holding ''x'' 1 1)
   \<and> wf_relations (holding ''x'' (1::nat) 1)
   \<and> extract_tree (holding ''x'' (1::nat) 1) 1 SOURCES None = Inl (InconsistentLineageException CyclicGraph)
   \<and> extract_tree (holding ''x'' (1::nat) 1) 1 DERIVED None = Inl (InconsistentLineageException CyclicGraph)
   \<and> extract_tree square_pool 1 SOURCES None = Inr square_tree
   \<and> expanded square_tree
   \<and> (\<exists>s1. merge_new_home empty_relations (1::nat) None = Inr s1 \<and> wf_relations s1)
   \<and> (\<exists>s3. merge_tree empty_relations (scenario_tree (1::nat) 2) None 0 = Inr s3 \<and> wf_relations s3)
   \<and> (\<exists>s4. merge empty_relations (holding ''x'' (1::nat) 2) = Inr s4 \<and> wf_relations s4)"
proof -
  let ?L = "holding ''x'' (1::nat) 1"
  let ?rel = "\<lparr>classifier = ''x'', source_id = 1::nat, derived_id = 1\<rparr>"
  let ?h = "(empty_relations :: nat LineageRelations)\<lparr>homes := [(1, None)]\<rparr>"
  have built: "merge_new_lineage_relation empty_relations ?rel = Inr ?L"
    by (rule holding_built)
  have home: "merge_new_home empty_relations (1::nat) None = Inr ?h"
    by (simp add: merge_new_home_def empty_relations_def)
  obtain s3 where s3: "merge_tree empty_relations (scenario_tree (1::nat) 2) None 0 = Inr s3"
    using merge_scenario_tree[of "1::nat" 2] by simp
  have pool: "merge empty_relations (holding ''x'' (1::nat) 2) = Inr (holding ''x'' 1 2)"
    by (simp add: model_defs holding_def)
  note T = extract_tree_path_sensitive[where 'id = nat and self = empty_relations and k = 1 and hm = None
      and ?s1.0 = ?h and rel = ?rel and ?s2.0 = ?L and t = "scenario_tree 1 2" and p = None and d = 0
      and ?s3.0 = s3 and pool = "holding ''x'' 1 2" and ?s4.0 = "holding ''x'' 1 2"]
  note rest = T[THEN conjunct2, THEN conjunct2, THEN conjunct2, THEN conjunct2]
  note wf0 = rest[THEN conjunct1]
  note kept = rest[THEN conjunct2, THEN mp, OF wf0]
  note wf1 = kept[THEN conjunct1, THEN mp, OF home]
  note wf = kept[THEN conjunct2, THEN conjunct1, THEN mp, OF built]
  note wf3 = kept[THEN conjunct2, THEN conjunct2, THEN conjunct1, THEN mp, OF s3]
  note wf4 = kept[THEN conjunct2, THEN conjunct2, THEN conjunct2, THEN mp, OF pool]
  from T[THEN conjunct1] obtain fwd where
    H: "\<forall>(self :: nat LineageRelations) root dir.
       wf_relations self \<longrightarrow>
         (extract_tree self root dir None = Inl (InconsistentLineageException CyclicGraph)
            \<longleftrightarrow> (\<exists>p. path_from (walk fwd self dir) root p \<and> \<not> distinct (root # p)))"
    by (rule exE)
  have loop: "walk fwd ?L dir = {(1, 1)}" for dir
    by (auto simp: walk_def edge_set_def holding_def)
  have path: "\<exists>p. path_from (walk fwd ?L dir) 1 p \<and> \<not> distinct (1 # p)" for dir
    unfolding loop by (rule exI[of _ "[1]"]) simp
  have raise: "extract_tree ?L 1 dir None = Inl (InconsistentLineageException CyclicGraph)" for dir
    using H[THEN spec, THEN spec, THEN spec, THEN mp, OF wf, of 1 dir] path[of dir] by (rule iffD2)
  have ex: "expanded square_tree"
    using extract_tree_path_sensitive[where self = square_pool and root = 1 and dir = SOURCES,
        THEN conjunct2, THEN conjunct2, THEN conjunct1, THEN spec, THEN mp, OF square_extracted] .
  have h1: "\<exists>s1. merge_new_home empty_relations (1::nat) None = Inr s1 \<and> wf_relations s1"
    using home wf1 by blast
  have h3: "\<exists>s3. merge_tree empty_relations (scenario_tree (1::nat) 2) None 0 = Inr s3 \<and> wf_relations s3"
    using s3 wf3 by blast
  have h4: "\<exists>s4. merge empty_relations (holding ''x'' (1::nat) 2) = Inr s4 \<and> wf_relations s4"
    using pool wf4 by blast
  show ?thesis
    by (rule conjI[OF wf0 conjI[OF built conjI[OF wf conjI[OF raise conjI[OF raise
          conjI[OF square_extracted conjI[OF ex conjI[OF h1 conjI[OF h3 h4]]]]]]]]])
qed

text \<open>
  C8 (depth bound), as stated: with \<open>max_depth = 1\<close> no edge below the immediate children is
  merged. The outer call does not count as a level, so the children of the root are
  visited with \<open>max_depth = 1\<close> and merge their own edges: in the chain 1, 2, 3, 4 the merge
  succeeds and the edge between the child 2 and the grandchild 3 is among the relations.
\<close>

theorem depth_one_merges_grandchild_edge:
  "map_sum id relations (merge_tree empty_relations deep_tree None 1)
     = Inr [\<lparr>classifier = ''x'', source_id = 1, derived_id = 2\<rparr>,
            \<lparr>classifier = ''y'', source_id = 2, derived_id = 3\<rparr>]"
  by (simp add: deep_tree_depth_one)

text \<open>
  C8, amended: a successful \<open>merge_tree\<close> with \<open>max_depth = 1\<close> adds exactly the edges of the
  root and of its immediate children (root to children, children to grandchildren) and
  records a home for exactly the root and its immediate children; with \<open>max_depth = 0\<close> it
  adds the edges and records the homes of every node of the tree. In both cases the list
  of relations stays in step with the index.
\<close>

theorem merge_tree_depth_bound:
  "(merge_tree self t None 1 = Inr s1 \<longrightarrow>
      set (relations_idx s1)
        = set (relations_idx self) \<union> (\<Union>n \<in> set (nodes_upto 1 t). set (node_edges n))
      \<and> fst ` set (homes s1) = fst ` set (homes self) \<union> dataset_id ` set (nodes_upto 1 t)
      \<and> (wf_index self \<longrightarrow> wf_index s1))
   \<and> (merge_tree self t None 0 = Inr s0 \<longrightarrow>
      set (relations_idx s0)
        = set (relations_idx self) \<union> (\<Union>n \<in> set (nodes t). set (node_edges n))
      \<and> fst ` set (homes s0) = fst ` set (homes self) \<union> dataset_id ` set (nodes t)
      \<and> (wf_index self \<longrightarrow> wf_index s0))"
proof (intro conjI impI)
  assume "merge_tree self t None 1 = Inr s1"
  from merge_tree_merged(1)[OF this]
  have m: "merged self s1 (set (nodes_upto 1 t)) (edges_of (set (nodes_upto 1 t)))"
    by (simp only: visited_root_one)
  show "set (relations_idx s1)
        = set (relations_idx self) \<union> (\<Union>n \<in> set (nodes_upto 1 t). set (node_edges n))"
    using m by (simp add: merged_def edges_of_def)
  show "fst ` set (homes s1) = fst ` set (homes self) \<union> dataset_id ` set (nodes_upto 1 t)"
    using m by (simp add: merged_def homes_grow_def)
  show "wf_index s1" if "wf_index self"
    using m that by (simp add: merged_def)
next
  assume "merge_tree self t None 0 = Inr s0"
  from merge_tree_merged(1)[OF this]
  have m: "merged self s0 (set (nodes t)) (edges_of (set (nodes t)))"
    by (simp only: visited_root_unbounded)
  show "set (relations_idx s0)
        = set (relations_idx self) \<union> (\<Union>n \<in> set (nodes t). set (node_edges n))"
    using m by (simp add: merged_def edges_of_def)
  show "fst ` set (homes s0) = fst ` set (homes self) \<union> dataset_id ` set (nodes t)"
    using m by (simp add: merged_def homes_grow_def)
  show "wf_index s0" if "wf_index self"
    using m that by (simp add: merged_def)
qed

theorem merge_tree_depth_bound_witness:
  "(\<exists>s1. merge_tree empty_relations deep_tree None 1 = Inr s1
       \<and> set (relations_idx s1) = {((1, 2), ''x''), ((2, 3), ''y'')}
       \<and> fst ` set (homes s1) = {1, 2})
   \<and> (\<exists>s0. merge_tree empty_relations deep_tree None 0 = Inr s0
       \<and> set (relations_idx s0) = {((1, 2), ''x''), ((2, 3), ''y''), ((3, 4), ''z'')}
       \<and> fst ` set (homes s0) = {1, 2, 3, 4})"
proof -
  obtain s1 where s1: "merge_tree empty_relations deep_tree None 1 = Inr s1"
    using deep_tree_depth_one by blast
  obtain s0 where s0: "merge_tree empty_relations deep_tree None 0 = Inr s0"
    using deep_tree_unbounded by blast
  have none: "set (relations_idx (empty_relations :: nat LineageRelations)) = {}"
    "fst ` set (homes (empty_relations :: nat LineageRelations)) = {}"
    by (simp_all add: empty_relations_def)
  from merge_tree_depth_bound[of empty_relations deep_tree s1 s0] s1 s0
  have "set (relations_idx s1) = {((1, 2), ''x''), ((2, 3), ''y'')}"
    "fst ` set (homes s1) = {1, 2}"
    "set (relations_idx s0) = {((1, 2), ''x''), ((2, 3), ''y''), ((3, 4), ''z'')}"
    "fst ` set (homes s0) = {1, 2, 3, 4}"
    unfolding deep_tree_edges none by simp_all
  with s1 s0 show ?thesis by blast
qed

text \<open>
  C10 (null homes). Every call of \<open>merge_tree\<close> that succeeds has recorded a home entry for
  its root, and the default call (\<open>max_depth = 0\<close>) for every node of the tree; when no node
  of the tree carries a home, the entry of every id that had none before is the null home.
  A stored null home makes \<open>merge_new_home\<close> return the collection unchanged whatever home
  is supplied, and no successful \<open>merge_tree\<close> or \<open>merge\<close> changes a stored entry.
\<close>

theorem null_home_recorded_and_kept:
  "(merge_tree self t p d = Inr s1 \<longrightarrow> dataset_id t \<in> fst ` set (homes s1))
   \<and> (merge_tree self t None 0 = Inr s0 \<longrightarrow>
        (\<forall>n \<in> set (nodes t). dataset_id n \<in> fst ` set (homes s0))
      \<and> ((\<forall>n \<in> set (nodes t). home n = None) \<longrightarrow>
           (\<forall>n \<in> set (nodes t). map_of (homes self) (dataset_id n) = None
                \<longrightarrow> map_of (homes s0) (dataset_id n) = Some None)))
   \<and> (map_of (homes self) k = Some None \<longrightarrow> merge_new_home self k hm = Inr self)
   \<and> (map_of (homes self) k = Some v \<longrightarrow> merge_tree self t p d = Inr s1
        \<longrightarrow> map_of (homes s1) k = Some v)
   \<and> (map_of (homes self) k = Some v \<longrightarrow> merge self pool = Inr s2
        \<longrightarrow> map_of (homes s2) k = Some v)"
proof (intro conjI impI ballI)
  assume "merge_tree self t p d = Inr s1"
  from merge_tree_merged(1)[OF this] root_visited[of t p d]
  show "dataset_id t \<in> fst ` set (homes s1)"
    by (auto simp: merged_def homes_grow_def)
next
  fix n assume "merge_tree self t None 0 = Inr s0" "n \<in> set (nodes t)"
  from merge_tree_merged(1)[OF this(1)] this(2)
  show "dataset_id n \<in> fst ` set (homes s0)"
    by (auto simp: merged_def homes_grow_def visited_root_unbounded)
next
  fix n assume run: "merge_tree self t None 0 = Inr s0"
    and none: "\<forall>n \<in> set (nodes t). home n = None"
    and n: "n \<in> set (nodes t)" "map_of (homes self) (dataset_id n) = None"
  from merge_tree_merged(1)[OF run]
  have "homes_grow self s0 (set (nodes t))"
    by (simp add: merged_def visited_root_unbounded)
  then obtain m where "m \<in> set (nodes t)" "map_of (homes s0) (dataset_id n) = Some (home m)"
    using n unfolding homes_grow_def by blast
  then show "map_of (homes s0) (dataset_id n) = Some None"
    using none by simp
next
  assume "map_of (homes self) k = Some None"
  then show "merge_new_home self k hm = Inr self"
    by (simp add: merge_new_home_def truthy_home_def)
next
  assume "map_of (homes self) k = Some v" "merge_tree self t p d = Inr s1"
  from merge_tree_merged(1)[OF this(2)] this(1)
  show "map_of (homes s1) k = Some v"
    by (simp add: merged_def homes_grow_def)
next
  assume "map_of (homes self) k = Some v" "merge self pool = Inr s2"
  from merge_homes_preserved[OF this(2) this(1)]
  show "map_of (homes s2) k = Some v" .
qed

theorem null_home_recorded_and_kept_witness:
  "\<exists>s. merge_tree empty_relations (scenario_tree (1::nat) 2) None 0 = Inr s
      \<and> map_of (homes s) 1 = Some None \<and> map_of (homes s) 2 = Some None
      \<and> merge_new_home s 1 (Some ''h'') = Inr s
      \<and> merge_tree s (LineageTree SOURCES 1 None (Some ''h'')) None 0 = Inr s
      \<and> map_of (homes s) 1 = Some None"
proof -
  let ?t = "scenario_tree (1::nat) 2"
  obtain s where s: "merge_tree empty_relations ?t None 0 = Inr s"
    and lit: "s = \<lparr>homes = [(1, None), (2, None)], relations_idx = [((1, 2), ''nbar'')],
          trees_idx = [],
          relations = [\<lparr>classifier = ''nbar'', source_id = 1, derived_id = 2\<rparr>],
          by_source = [(1, [(2, ''nbar'')])],
          by_derived = [(2, [(1, ''nbar'')])], dataset_ids = {1, 2}\<rparr>"
    using merge_scenario_tree[of "1::nat" 2] by simp
  have nodes: "set (nodes ?t) = {?t, leaf SOURCES 2}"
    by (simp add: scenario_tree_def leaf_def)
  have nohome: "\<forall>n \<in> set (nodes ?t). home n = None"
    unfolding nodes by (simp add: scenario_tree_def leaf_def)
  have fresh: "map_of (homes (empty_relations :: nat LineageRelations)) i = None" for i
    by (simp add: empty_relations_def)
  note inst = null_home_recorded_and_kept[of empty_relations ?t None 0 s s]
  note stored = inst[THEN conjunct2, THEN conjunct1, THEN mp, OF s, THEN conjunct2, THEN mp,
      OF nohome, THEN bspec, THEN mp, OF _ fresh]
  have "?t \<in> set (nodes ?t)" "leaf SOURCES 2 \<in> set (nodes ?t)"
    unfolding nodes by simp_all
  from stored[OF this(1)] stored[OF this(2)]
  have h1: "map_of (homes s) 1 = Some None" and h2: "map_of (homes s) 2 = Some None"
    by (simp_all add: scenario_tree_def leaf_def)
  have keep: "merge_new_home s 1 (Some ''h'') = Inr s"
    using null_home_recorded_and_kept[of s _ _ _ _ _ 1 "Some ''h''", THEN conjunct2, THEN conjunct2,
      THEN conjunct1, rule_format, OF h1] .
  have again: "merge_tree s (LineageTree SOURCES 1 None (Some ''h'')) None 0 = Inr s"
    unfolding lit by (simp add: model_defs)
  show ?thesis using s h1 h2 keep again by (intro exI[of _ s] conjI)
qed

text \<open>
  C4 (idempotence), as stated: merging the same tree or collection twice succeeds whenever
  merging once does. \<open>_merge_new_node\<close> records every edge whose child carries children of
  its own and raises when it meets such an edge again, so the chain 1, 2, 3 merges into the
  empty collection once and raises the second time, and so does the collection the first
  merge produced when it is merged twice into another one.
\<close>

theorem second_merge_raises:
  "merge_tree empty_relations chain_tree None 0 = Inr chain_pool
   \<and> merge_tree chain_pool chain_tree None 0 = Inl (InconsistentLineageException DuplicateSubtree)
   \<and> merge empty_relations chain_pool = Inr chain_pool
   \<and> merge chain_pool chain_pool = Inl (InconsistentLineageException DuplicateSubtree)"
  by code_simp

text \<open>
  C4, amended: a tree in which no child of the root has children of its own, and a
  collection that has recorded no subtree (\<open>_trees_idx\<close> is empty), merge a second time
  whenever they merged once, and the second merge leaves the collection as the first one
  left it.
\<close>

theorem merge_idempotent:
  "((\<forall>c \<in> set (subtrees T). leafy c) \<longrightarrow> merge_tree self T p d = Inr s1
      \<longrightarrow> merge_tree s1 T p d = Inr s1)
   \<and> (trees_idx pool = [] \<longrightarrow> merge self pool = Inr s2 \<longrightarrow> merge s2 pool = Inr s2)"
  using merge_tree_twice merge_twice by blast

theorem merge_idempotent_witness:
  "(\<exists>s1. merge_tree empty_relations (scenario_tree (1::nat) 2) None 0 = Inr s1
        \<and> merge_tree s1 (scenario_tree 1 2) None 0 = Inr s1)
   \<and> (\<exists>s2. merge empty_relations (holding ''x'' (1::nat) 2) = Inr s2
        \<and> merge s2 (holding ''x'' 1 2) = Inr s2)"
proof -
  obtain s1 where s1: "merge_tree empty_relations (scenario_tree (1::nat) 2) None 0 = Inr s1"
    using merge_scenario_tree[of "1::nat" 2] by simp
  have shallow: "\<forall>c \<in> set (subtrees (scenario_tree (1::nat) 2)). leafy c"
    by (simp add: subtrees_def scenario_tree_def leaf_def leafy_def truthy_children_def)
  have once: "merge empty_relations (holding ''x'' (1::nat) 2) = Inr (holding ''x'' 1 2)"
    by (simp add: model_defs holding_def)
  have none: "trees_idx (holding ''x'' (1::nat) 2) = []"
    by (simp add: holding_def)
  note inst = merge_idempotent[of "scenario_tree (1::nat) 2" empty_relations None 0 s1
      "holding ''x'' (1::nat) 2" "holding ''x'' (1::nat) 2"]
  from inst[THEN conjunct1, THEN mp, THEN mp, OF shallow s1]
    inst[THEN conjunct2, THEN mp, THEN mp, OF none once] s1 once
  show ?thesis by (intro conjI exI[of _ s1] exI[of _ "holding ''x'' (1::nat) 2"])
qed

text \<open>
  C3 (round trip), as stated: for every acyclic collection, extracting a tree and merging
  it into an empty collection reproduces the reachable part. \<open>extract_tree\<close> expands a node
  once for each path that reaches it, and \<open>merge_tree\<close> refuses an edge whose child carries
  children of its own the second time it meets it. In the acyclic collection with the
  edges 1-4, 1-2, 2-4, 4-5, 5-6, built by merging them one by one, the extraction from 1
  succeeds and merging the extracted tree into the empty collection raises.
\<close>

theorem round_trip_raises:
  "acyclic (edge_set diamond_pool)
   \<and> merge_relations empty_relations diamond_edges = Inr diamond_pool
   \<and> extract_tree diamond_pool 1 SOURCES None = Inr diamond_tree
   \<and> merge_tree empty_relations diamond_tree None 0
       = Inl (InconsistentLineageException DuplicateSubtree)"
proof -
  have "acyclic (edge_set diamond_pool)"
    by (rule increasing_acyclic) (simp add: edge_set_def diamond_pool_def)
  then show ?thesis
    by (simp only: diamond_extract_merge simp_thms)
qed

text \<open>
  C3, amended: the relations are walked in one sense for SOURCES and in the opposite sense
  for DERIVED (which of the two is left open), and for every collection \<open>R\<close> whose indices
  are in step, every root and every direction: the extraction succeeds whenever the
  relations of \<open>R\<close> are acyclic; the extracted tree merges into the empty collection exactly
  when no edge whose child carries children of its own occurs twice in it; and whenever
  it merges, the result holds exactly the relations of \<open>R\<close> that leave an id reached from
  the root, a home entry for exactly the reached ids, each the home \<open>R\<close> has for that id
  (the null home when \<open>R\<close> has none), and indices in step. After merging the U1/U2 scenario
  tree, extracting U1 in the SOURCES direction gives that tree back.
\<close>

theorem round_trip:
  "(\<exists>fwd. \<forall>(R :: 'id LineageRelations) root dir t s.
       wf_relations R \<longrightarrow>
         (acyclic (edge_set R) \<longrightarrow> (\<exists>t. extract_tree R root dir None = Inr t))
       \<and> (extract_tree R root dir None = Inr t \<longrightarrow>
            ((\<exists>s. merge_tree empty_relations t None 0 = Inr s) \<longleftrightarrow> distinct (detailed t))
          \<and> (merge_tree empty_relations t None 0 = Inr s \<longrightarrow>
                set (relations_idx s) = met fwd R root dir
              \<and> fst ` set (homes s) = reached fwd R root dir
              \<and> (\<forall>k \<in> reached fwd R root dir. map_of (homes s) k = Some (home_of R k))
              \<and> wf_relations s)))
   \<and> (u1 \<noteq> u2 \<longrightarrow> merge_tree empty_relations (scenario_tree u1 u2) None 0 = Inr s' \<longrightarrow>
        extract_tree s' u1 SOURCES None = Inr (scenario_tree u1 u2))"
proof -
  have "\<forall>(R :: 'id LineageRelations) root dir t s.
       wf_relations R \<longrightarrow>
         (acyclic (edge_set R) \<longrightarrow> (\<exists>t. extract_tree R root dir None = Inr t))
       \<and> (extract_tree R root dir None = Inr t \<longrightarrow>
            ((\<exists>s. merge_tree empty_relations t None 0 = Inr s) \<longleftrightarrow> distinct (detailed t))
          \<and> (merge_tree empty_relations t None 0 = Inr s \<longrightarrow>
                set (relations_idx s) = met True R root dir
              \<and> fst ` set (homes s) = reached True R root dir
              \<and> (\<forall>k \<in> reached True R root dir. map_of (homes s) k = Some (home_of R k))
              \<and> wf_relations s))"
  proof (intro allI impI conjI)
    fix R :: "'id LineageRelations" and root dir
    assume wf: "wf_relations R" and ac: "acyclic (edge_set R)"
    show "\<exists>t. extract_tree R root dir None = Inr t"
      by (rule acyclic_extracts[OF wf ac])
  next
    fix R :: "'id LineageRelations" and root dir t
    assume wf: "wf_relations R" and ex: "extract_tree R root dir None = Inr t"
    show "(\<exists>s. merge_tree empty_relations t None 0 = Inr s) \<longleftrightarrow> distinct (detailed t)"
      by (rule round_trip_accepted[OF wf ex])
  next
    fix R :: "'id LineageRelations" and root dir t s
    assume wf: "wf_relations R" and ex: "extract_tree R root dir None = Inr t"
      and mg: "merge_tree empty_relations t None 0 = Inr s"
    show "set (relations_idx s) = met True R root dir"
      by (rule round_trip_reached(1)[OF wf ex mg])
    show "fst ` set (homes s) = reached True R root dir"
      by (rule round_trip_reached(2)[OF wf ex mg])
    show "\<forall>k \<in> reached True R root dir. map_of (homes s) k = Some (home_of R k)"
      by (rule round_trip_reached(3)[OF wf ex mg])
    show "wf_relations s"
      by (rule round_trip_reached(4)[OF wf ex mg])
  qed
  then have general: "\<exists>fwd. \<forall>(R :: 'id LineageRelations) root dir t s.
       wf_relations R \<longrightarrow>
         (acyclic (edge_set R) \<longrightarrow> (\<exists>t. extract_tree R root dir None = Inr t))
       \<and> (extract_tree R root dir None = Inr t \<longrightarrow>
            ((\<exists>s. merge_tree empty_relations t None 0 = Inr s) \<longleftrightarrow> distinct (detailed t))
          \<and> (merge_tree empty_relations t None 0 = Inr s \<longrightarrow>
                set (relations_idx s) = met fwd R root dir
              \<and> fst ` set (homes s) = reached fwd R root dir
              \<and> (\<forall>k \<in> reached fwd R root dir. map_of (homes s) k = Some (home_of R k))
              \<and> wf_relations s))"
    by (rule exI)
  have scen: "u1 \<noteq> u2 \<longrightarrow> merge_tree empty_relations (scenario_tree u1 u2) None 0 = Inr s' \<longrightarrow>
        extract_tree s' u1 SOURCES None = Inr (scenario_tree u1 u2)"
    by (intro impI) (rule scenario_extracted)
  show ?thesis by (rule conjI[OF general scen])
qed

theorem round_trip_witness:
  "wf_relations square_pool
   \<and> acyclic (edge_set square_pool)
   \<and> extract_tree square_pool 1 SOURCES None = Inr square_tree
   \<and> distinct (detailed square_tree)
   \<and> (\<exists>fwd s. merge_tree empty_relations square_tree None 0 = Inr s
        \<and> set (relations_idx s) = met fwd square_pool 1 SOURCES
        \<and> set (relations_idx s) = set (relations_idx square_pool)
        \<and> fst ` set (homes s) = reached fwd square_pool 1 SOURCES
        \<and> fst ` set (homes s) = {1, 2, 3, 4}
        \<and> map_of (homes s) 1 = Some (home_of square_pool 1)
        \<and> wf_relations s)
   \<and> (\<exists>t. extract_tree square_pool 4 DERIVED None = Inr t)
   \<and> (\<exists>s'. merge_tree empty_relations (scenario_tree (1::nat) 2) None 0 = Inr s'
        \<and> extract_tree s' 1 SOURCES None = Inr (scenario_tree 1 2))"
proof -
  obtain s where s: "merge_tree empty_relations square_tree None 0 = Inr s"
    and rel: "set (relations_idx s) = set (relations_idx square_pool)"
    and hom: "fst ` set (homes s) = {1, 2, 3, 4}"
    using square_merged by (auto simp: square_pool_def square_edges_def)
  obtain s' where s': "merge_tree empty_relations (scenario_tree (1::nat) 2) None 0 = Inr s'"
    using merge_scenario_tree[of "1::nat" 2] by simp
  note T = round_trip[where 'id = nat, of 1 2 s']
  have ne: "(1::nat) \<noteq> 2" by simp
  note scen = T[THEN conjunct2, THEN mp, THEN mp, OF ne s']
  have wf: "wf_relations square_pool"
    by (rule wf_relations_merge_relations[OF wf_relations_empty square_built])
  have ac: "acyclic (edge_set square_pool)"
    by (rule increasing_acyclic) (simp add: edge_set_def square_pool_def square_edges_def)
  from T[THEN conjunct1] obtain fwd where
    H: "\<forall>(R :: nat LineageRelations) root dir t s.
       wf_relations R \<longrightarrow>
         (acyclic (edge_set R) \<longrightarrow> (\<exists>t. extract_tree R root dir None = Inr t))
       \<and> (extract_tree R root dir None = Inr t \<longrightarrow>
            ((\<exists>s. merge_tree empty_relations t None 0 = Inr s) \<longleftrightarrow> distinct (detailed t))
          \<and> (merge_tree empty_relations t None 0 = Inr s \<longrightarrow>
                set (relations_idx s) = met fwd R root dir
              \<and> fst ` set (homes s) = reached fwd R root dir
              \<and> (\<forall>k \<in> reached fwd R root dir. map_of (homes s) k = Some (home_of R k))
              \<and> wf_relations s))"
    by (rule exE)
  note at1 = H[THEN spec, THEN spec, THEN spec, THEN spec, THEN spec, THEN mp, OF wf,
      of 1 SOURCES square_tree s]
  note at4 = H[THEN spec, THEN spec, THEN spec, THEN spec, THEN spec, THEN mp, OF wf,
      of 4 DERIVED square_tree s]
  note back4 = at4[THEN conjunct1, THEN mp, OF ac]
  note got = at1[THEN conjunct2, THEN mp, OF square_extracted]
  have some: "\<exists>s. merge_tree empty_relations square_tree None 0 = Inr s"
    using s by (rule exI)
  have once: "distinct (detailed square_tree)"
    using got[THEN conjunct1] some by (rule iffD1)
  note repro = got[THEN conjunct2, THEN mp, OF s]
  have "1 \<in> reached fwd square_pool 1 SOURCES" by (simp add: reached_def)
  then have at_root: "map_of (homes s) 1 = Some (home_of square_pool 1)"
    by (rule repro[THEN conjunct2, THEN conjunct2, THEN conjunct1, THEN bspec])
  have A: "merge_tree empty_relations square_tree None 0 = Inr s
        \<and> set (relations_idx s) = met fwd square_pool 1 SOURCES
        \<and> set (relations_idx s) = set (relations_idx square_pool)
        \<and> fst ` set (homes s) = reached fwd square_pool 1 SOURCES
        \<and> fst ` set (homes s) = {1, 2, 3, 4}
        \<and> map_of (homes s) 1 = Some (home_of square_pool 1)
        \<and> wf_relations s"
    using s rel hom repro at_root by (intro conjI) (simp_all only: simp_thms)
  then have "\<exists>s. merge_tree empty_relations square_tree None 0 = Inr s
        \<and> set (relations_idx s) = met fwd square_pool 1 SOURCES
        \<and> set (relations_idx s) = set (relations_idx square_pool)
        \<and> fst ` set (homes s) = reached fwd square_pool 1 SOURCES
        \<and> fst ` set (homes s) = {1, 2, 3, 4}
        \<and> map_of (homes s) 1 = Some (home_of square_pool 1)
        \<and> wf_relations s"
    by (rule exI)
  then have A': "\<exists>fwd s. merge_tree empty_relations square_tree None 0 = Inr s
        \<and> set (relations_idx s) = met fwd square_pool 1 SOURCES
        \<and> set (relations_idx s) = set (relations_idx square_pool)
        \<and> fst ` set (homes s) = reached fwd square_pool 1 SOURCES
        \<and> fst ` set (homes s) = {1, 2, 3, 4}
        \<and> map_of (homes s) 1 = Some (home_of square_pool 1)
        \<and> wf_relations s"
    by (rule exI)
  have B: "merge_tree empty_relations (scenario_tree (1::nat) 2) None 0 = Inr s'
        \<and> extract_tree s' 1 SOURCES None = Inr (scenario_tree 1 2)"
    using s' scen by (intro conjI)
  then have B': "\<exists>s'. merge_tree empty_relations (scenario_tree (1::nat) 2) None 0 = Inr s'
        \<and> extract_tree s' 1 SOURCES None = Inr (scenario_tree 1 2)"
    by (rule exI)
  show ?thesis
    by (rule conjI[OF wf conjI[OF ac conjI[OF square_extracted conjI[OF once conjI[OF A' conjI[OF back4 B']]]]]])
qed

end
